theory Spec2Isabelle
  imports Complex_Main "HOL-Library.Word"
begin

section \<open>swscale\_bench: the benchmark engine of main.cpp\<close>

text \<open>
  The program spawns \<open>n\<close> threads per run; every thread runs \<open>thread_target\<close>, which
  builds a conversion context and two frames, then claims work from a shared
  \<open>std::atomic_int counter\<close> and calls \<open>sws_scale\<close> once per claim. \<open>execute\<close> sweeps
  the thread count and prints one block per run.

  The model is an interleaving semantics. The only objects shared between threads are
  the two atomics, which the code accesses with the default, sequentially consistent
  memory order; so a thread's execution is cut into atomic steps at the accesses to
  them, and the scheduler is an arbitrary function that picks the next enabled step.
  The calls into libswscale and libavutil are not part of the repository: what they
  return is a parameter of the model (\<open>lib\<close>), and they are assumed to return.
  \<open>timer.h\<close> is not among the sources at hand: the elapsed time of a run is a
  parameter too. A run (\<open>step\<close>, \<open>run_loop\<close>) and the sweep over runs (\<open>sweep\<close>,
  \<open>execute\<close>) are first given for the case that every construction of a \<open>std::thread\<close>
  succeeds; \<open>sweep_spawn\<close> and \<open>execute_spawn\<close> then add the constructions that fail.
\<close>

subsection \<open>Machine integers\<close>

text \<open>
  \<open>int\<close> and \<open>unsigned\<close> are 32 bits wide. A \<open>cint\<close> is read with \<open>sint\<close>, compared with
  \<open>\<le>s\<close> and \<open><s\<close>; a \<open>cuint\<close> is read with \<open>unat\<close>. Arithmetic on both wraps around:
  for \<open>unsigned\<close> by the language, for \<open>std::atomic_int\<close> by the definition of the atomic
  read-modify-write operations. \<open>static_cast<int>\<close> of an \<open>unsigned\<close> keeps the bits.
\<close>

type_synonym cint = "32 word"
type_synonym cuint = "32 word"

subsection \<open>The external library\<close>

text \<open>
  What the library calls made by thread number \<open>t\<close> of a run return:
  whether \<open>sws_getContext\<close> and the two \<open>av_frame_alloc\<close> calls give a non-null pointer,
  the status of the two \<open>av_frame_get_buffer\<close> calls, and the status of the \<open>k\<close>-th
  \<open>sws_scale\<close> call of that thread.
\<close>

record lib =
  sws_getContext :: "nat \<Rightarrow> bool"
  av_frame_alloc_src :: "nat \<Rightarrow> bool"
  av_frame_alloc_dst :: "nat \<Rightarrow> bool"
  av_frame_get_buffer_src :: "nat \<Rightarrow> cint"
  av_frame_get_buffer_dst :: "nat \<Rightarrow> cint"
  sws_scale :: "nat \<Rightarrow> nat \<Rightarrow> cint"

subsection \<open>One thread: \<open>thread_target\<close>\<close>

text \<open>
  A frame pointer is null, points to a frame without buffers, or to a frame whose
  buffers have been attached by \<open>av_frame_get_buffer\<close>.
\<close>

datatype frame = FrameNull | FrameEmpty | FrameBuffered

text \<open>
  The places of \<open>thread_target\<close> between which a step is atomic:
  \<open>PInit\<close> is the entry (lines 39 to 65, thread-local),
  \<open>PLoop\<close> the head of the loop (the atomic post-decrement of line 68),
  \<open>PScale\<close> the call of line 71,
  \<open>PFail\<close> the label \<open>fail\<close> (lines 76 to 82),
  \<open>PDone\<close> the end of the function.
\<close>

datatype label = PInit | PLoop | PScale | PFail | PDone

text \<open>
  The locals of one thread. \<open>sws\<close> says whether the thread holds a conversion context.
  \<open>calls\<close> counts the \<open>sws_scale\<close> calls the thread has made, and \<open>seen\<close> lists the
  values its post-decrements of the counter have returned, latest first; both are
  history variables, which the code does not read.
\<close>

record worker =
  pc :: label
  err :: cint
  sws :: bool
  src_frame :: frame
  dst_frame :: frame
  calls :: nat
  seen :: "cint list"

definition thread_start :: worker where
  "thread_start =
     \<lparr>pc = PInit, err = 1, sws = False, src_frame = FrameNull, dst_frame = FrameNull,
      calls = 0, seen = []\<rparr>"

text \<open>Lines 46 to 65: every failure jumps to \<open>fail\<close> with what has been built so far.\<close>

definition thread_setup :: "lib \<Rightarrow> nat \<Rightarrow> worker \<Rightarrow> worker" where
  "thread_setup L t w =
     (if \<not> sws_getContext L t then w\<lparr>pc := PFail\<rparr>
      else if \<not> av_frame_alloc_src L t then w\<lparr>sws := True, pc := PFail\<rparr>
      else if \<not> av_frame_alloc_dst L t then
        w\<lparr>sws := True, src_frame := FrameEmpty, pc := PFail\<rparr>
      else if av_frame_get_buffer_src L t \<noteq> 0 then
        w\<lparr>sws := True, src_frame := FrameEmpty, dst_frame := FrameEmpty,
          err := av_frame_get_buffer_src L t, pc := PFail\<rparr>
      else if av_frame_get_buffer_dst L t \<noteq> 0 then
        w\<lparr>sws := True, src_frame := FrameBuffered, dst_frame := FrameEmpty,
          err := av_frame_get_buffer_dst L t, pc := PFail\<rparr>
      else
        w\<lparr>sws := True, src_frame := FrameBuffered, dst_frame := FrameBuffered,
          err := av_frame_get_buffer_dst L t, pc := PLoop\<rparr>)"

subsection \<open>One run: the shared state and its steps\<close>

text \<open>
  The locals of one iteration of the sweep loop of \<open>execute\<close>: the thread count \<open>n\<close>,
  the two atomics and the vector of threads.
\<close>

record run =
  nthreads :: cuint
  counter :: cint
  error :: cint
  thread_pool :: "worker list"

definition init_run :: "cuint \<Rightarrow> cuint \<Rightarrow> run" where
  "init_run ntimes n = \<lparr>nthreads = n, counter = ntimes * n, error = 0, thread_pool = []\<rparr>"

text \<open>
  One atomic step of thread \<open>t\<close>.
  At \<open>PLoop\<close> the counter is decremented whatever its value; the thread leaves the loop
  (and passes line 75) when the value before was not positive.
  At \<open>PScale\<close> a negative status jumps to \<open>fail\<close>, with \<open>err\<close> as it is.
  At \<open>PFail\<close> the error is stored when \<open>err\<close> is not zero, and the frames and the
  context are freed.
\<close>

definition thread_step :: "lib \<Rightarrow> nat \<Rightarrow> run \<Rightarrow> run" where
  "thread_step L t s =
     (let w = thread_pool s ! t in
      case pc w of
        PInit \<Rightarrow> s\<lparr>thread_pool := (thread_pool s)[t := thread_setup L t w]\<rparr>
      | PLoop \<Rightarrow>
          (let c = counter s in
           s\<lparr>counter := c - 1,
             thread_pool := (thread_pool s)[t :=
               (if c \<le>s 0 then w\<lparr>seen := c # seen w, err := 0, pc := PFail\<rparr>
                else w\<lparr>seen := c # seen w, pc := PScale\<rparr>)]\<rparr>)
      | PScale \<Rightarrow>
          (let r = sws_scale L t (calls w) in
           s\<lparr>thread_pool := (thread_pool s)[t :=
               w\<lparr>calls := calls w + 1, pc := (if r <s 0 then PFail else PLoop)\<rparr>]\<rparr>)
      | PFail \<Rightarrow>
          s\<lparr>error := (if err w \<noteq> 0 then err w else error s),
            thread_pool := (thread_pool s)[t :=
              w\<lparr>src_frame := FrameNull, dst_frame := FrameNull, sws := False,
                pc := PDone\<rparr>]\<rparr>
      | PDone \<Rightarrow> s)"

text \<open>
  The scheduler's choices: the main thread constructs the next \<open>std::thread\<close>
  (line 103), or thread \<open>t\<close> makes a step. The construction succeeds here; what the
  program does when it fails is in \<open>sweep_spawn\<close> below.
\<close>

datatype event = Spawn | Run nat

fun step :: "lib \<Rightarrow> event \<Rightarrow> run \<Rightarrow> run" where
  "step L Spawn s =
     (if length (thread_pool s) < unat (nthreads s)
      then s\<lparr>thread_pool := thread_pool s @ [thread_start]\<rparr> else s)"
| "step L (Run t) s = (if t < length (thread_pool s) then thread_step L t s else s)"

definition enabled :: "run \<Rightarrow> event list" where
  "enabled s =
     (if length (thread_pool s) < unat (nthreads s) then [Spawn] else []) @
     map Run (filter (\<lambda>t. pc (thread_pool s ! t) \<noteq> PDone) [0..<length (thread_pool s)])"

subsection \<open>Every run comes to an end\<close>

text \<open>
  The main thread joins all threads after it has spawned them, so a run ends when no
  step is enabled. That this happens under every scheduler is the termination of
  \<open>run_loop\<close> below. The order that decreases is lexicographic: the number of threads
  that may still leave the loop, then the counter where it is positive, then the
  distance of the threads from the end of \<open>thread_target\<close>.
\<close>

definition active :: "worker \<Rightarrow> nat" where
  "active w = (if pc w = PFail \<or> pc w = PDone then 0 else 1)"

fun weight :: "label \<Rightarrow> nat" where
  "weight PInit = 4"
| "weight PScale = 3"
| "weight PLoop = 2"
| "weight PFail = 1"
| "weight PDone = 0"

definition unspawned :: "run \<Rightarrow> nat" where
  "unspawned s = unat (nthreads s) - length (thread_pool s)"

definition rank :: "run \<Rightarrow> nat \<times> nat \<times> nat" where
  "rank s =
     (unspawned s + sum_list (map active (thread_pool s)),
      nat (sint (counter s)),
      5 * unspawned s + sum_list (map (\<lambda>w. weight (pc w)) (thread_pool s)))"

lemma sum_list_map_update:
  fixes f :: "'a \<Rightarrow> nat"
  shows "t < length ws \<Longrightarrow> sum_list (map f (ws[t := w])) + f (ws ! t) = sum_list (map f ws) + f w"
proof (induction ws arbitrary: t)
  case Nil
  then show ?case by simp
next
  case (Cons a ws)
  then show ?case by (cases t) auto
qed

lemma sint_dec:
  fixes c :: "32 word"
  assumes "- (2 ^ 31) < sint c"
  shows "sint (c - 1) = sint c - 1"
proof -
  have "sint c < 2 ^ 31"
    using sint_lt [of c] by simp
  with assms have "signed_take_bit 31 (sint c - 1) = sint c - 1"
    by (intro signed_take_bit_int_eq_self) simp_all
  then show ?thesis
    by (simp add: sint_word_diff)
qed

lemma sint_dec_min:
  fixes c :: "32 word"
  assumes "sint c = - (2 ^ 31)"
  shows "sint (c - 1) = 2 ^ 31 - 1"
proof -
  have "c = word_of_int (sint c)" by simp
  then have "c = word_of_int (- (2 ^ 31))" using assms by metis
  then show ?thesis by simp
qed

lemma enabled_Run: "Run t \<in> set (enabled s) \<longleftrightarrow> t < length (thread_pool s) \<and> pc (thread_pool s ! t) \<noteq> PDone"
  by (auto simp: enabled_def)

lemma enabled_Spawn: "Spawn \<in> set (enabled s) \<longleftrightarrow> length (thread_pool s) < unat (nthreads s)"
  by (auto simp: enabled_def)


lemma lex3_less_than:
  "((a', b', c'), (a, b, c)) \<in> less_than <*lex*> less_than <*lex*> less_than \<longleftrightarrow>
     a' < a \<or> a' = a \<and> (b' < b \<or> b' = b \<and> c' < (c :: nat))"
  by simp

lemma spawn_decreases:
  assumes "length (thread_pool s) < unat (nthreads s)"
  shows "(rank (step L Spawn s), rank s) \<in> less_than <*lex*> less_than <*lex*> less_than"
proof -
  have "unspawned (step L Spawn s) + 1 = unspawned s"
    using assms by (simp add: unspawned_def)
  then show ?thesis
    using assms unfolding rank_def lex3_less_than
    by (simp add: active_def thread_start_def)
qed

lemma thread_step_PInit:
  "pc (thread_pool s ! t) = PInit \<Longrightarrow>
   thread_step L t s = s\<lparr>thread_pool := (thread_pool s)[t := thread_setup L t (thread_pool s ! t)]\<rparr>"
  by (simp add: thread_step_def)

lemma thread_step_break:
  "pc (thread_pool s ! t) = PLoop \<Longrightarrow> counter s \<le>s 0 \<Longrightarrow>
   thread_step L t s =
     s\<lparr>counter := counter s - 1,
       thread_pool := (thread_pool s)[t :=
         (thread_pool s ! t)\<lparr>seen := counter s # seen (thread_pool s ! t), err := 0, pc := PFail\<rparr>]\<rparr>"
  by (simp add: thread_step_def Let_def)

lemma thread_step_claim:
  "pc (thread_pool s ! t) = PLoop \<Longrightarrow> \<not> counter s \<le>s 0 \<Longrightarrow>
   thread_step L t s =
     s\<lparr>counter := counter s - 1,
       thread_pool := (thread_pool s)[t :=
         (thread_pool s ! t)\<lparr>seen := counter s # seen (thread_pool s ! t), pc := PScale\<rparr>]\<rparr>"
  by (simp add: thread_step_def Let_def)

lemma thread_step_PScale:
  "pc (thread_pool s ! t) = PScale \<Longrightarrow>
   thread_step L t s =
     s\<lparr>thread_pool := (thread_pool s)[t :=
         (thread_pool s ! t)\<lparr>calls := calls (thread_pool s ! t) + 1,
           pc := (if sws_scale L t (calls (thread_pool s ! t)) <s 0 then PFail else PLoop)\<rparr>]\<rparr>"
  by (simp add: thread_step_def Let_def)

lemma thread_step_PFail:
  "pc (thread_pool s ! t) = PFail \<Longrightarrow>
   thread_step L t s =
     s\<lparr>error := (if err (thread_pool s ! t) \<noteq> 0 then err (thread_pool s ! t) else error s),
       thread_pool := (thread_pool s)[t :=
         (thread_pool s ! t)\<lparr>src_frame := FrameNull, dst_frame := FrameNull, sws := False,
           pc := PDone\<rparr>]\<rparr>"
  by (simp add: thread_step_def Let_def)

lemma thread_step_PDone:
  "pc (thread_pool s ! t) = PDone \<Longrightarrow> thread_step L t s = s"
  by (simp add: thread_step_def)

lemmas thread_step_simps =
  thread_step_PInit thread_step_break thread_step_claim thread_step_PScale thread_step_PFail
  thread_step_PDone

lemma rank_update:
  assumes t: "t < length (thread_pool s)"
    and s': "nthreads s' = nthreads s" "thread_pool s' = (thread_pool s)[t := w']"
    and less: "active w' < active (thread_pool s ! t) \<or>
       active w' = active (thread_pool s ! t) \<and>
         (nat (sint (counter s')) < nat (sint (counter s)) \<or>
          counter s' = counter s \<and> weight (pc w') < weight (pc (thread_pool s ! t)))"
  shows "(rank s', rank s) \<in> less_than <*lex*> less_than <*lex*> less_than"
proof -
  have "unspawned s' = unspawned s"
    by (simp add: s' unspawned_def)
  then show ?thesis
    using less sum_list_map_update [OF t, of active w']
      sum_list_map_update [OF t, of "\<lambda>w. weight (pc w)" w']
    unfolding rank_def lex3_less_than s' by auto
qed

lemma pc_thread_setup: "pc (thread_setup L t w) = PLoop \<or> pc (thread_setup L t w) = PFail"
  by (simp add: thread_setup_def)

lemma thread_step_decreases:
  assumes t: "t < length (thread_pool s)" and nd: "pc (thread_pool s ! t) \<noteq> PDone"
  shows "(rank (thread_step L t s), rank s) \<in> less_than <*lex*> less_than <*lex*> less_than"
proof -
  let ?w = "thread_pool s ! t"
  show ?thesis
  proof (cases "pc ?w")
    case PInit
    have "weight (pc (thread_setup L t ?w)) < weight (pc ?w)"
      "active (thread_setup L t ?w) \<le> active ?w"
      using pc_thread_setup [of L t ?w] PInit by (auto simp: active_def)
    then show ?thesis
      by (intro rank_update [OF t, where w' = "thread_setup L t ?w"])
        (auto simp: thread_step_PInit PInit)
  next
    case PLoop
    show ?thesis
    proof (cases "counter s \<le>s 0")
      case True
      show ?thesis
        by (rule rank_update [OF t, where
              w' = "?w\<lparr>seen := counter s # seen ?w, err := 0, pc := PFail\<rparr>"])
          (simp_all add: thread_step_break PLoop True active_def)
    next
      case False
      then have "0 < sint (counter s)" by (simp add: word_sle_eq)
      then have less: "nat (sint (counter s - 1)) < nat (sint (counter s))"
        using sint_dec [of "counter s"] by simp
      show ?thesis
        using less
        by (intro rank_update [OF t, where w' = "?w\<lparr>seen := counter s # seen ?w, pc := PScale\<rparr>"])
          (simp_all add: thread_step_claim PLoop False active_def del: nat_less_iff zless_nat_conj)
    qed
  next
    case PScale
    show ?thesis
      by (rule rank_update [OF t, where w' = "?w\<lparr>calls := calls ?w + 1,
            pc := (if sws_scale L t (calls ?w) <s 0 then PFail else PLoop)\<rparr>"])
        (simp_all add: thread_step_PScale PScale active_def)
  next
    case PFail
    show ?thesis
      by (rule rank_update [OF t, where w' = "?w\<lparr>src_frame := FrameNull,
            dst_frame := FrameNull, sws := False, pc := PDone\<rparr>"])
        (simp_all add: thread_step_PFail PFail active_def)
  next
    case PDone
    with nd show ?thesis by simp
  qed
qed

lemma step_decreases:
  assumes "e \<in> set (enabled s)"
  shows "(rank (step L e s), rank s) \<in> less_than <*lex*> less_than <*lex*> less_than"
proof (cases e)
  case Spawn
  with assms show ?thesis
    using spawn_decreases [of s L] by (simp add: enabled_Spawn)
next
  case (Run t)
  with assms show ?thesis
    using thread_step_decreases [of t s L] by (simp add: enabled_Run)
qed

text \<open>
  A run under the scheduler \<open>sched\<close>: at its \<open>i\<close>-th decision the scheduler picks
  the step number \<open>sched i\<close> (modulo their number) among the enabled ones.
\<close>

function run_loop :: "lib \<Rightarrow> (nat \<Rightarrow> nat) \<Rightarrow> nat \<Rightarrow> run \<Rightarrow> run" where
  "run_loop L sched i s =
     (if enabled s = [] then s
      else run_loop L sched (Suc i) (step L (enabled s ! (sched i mod length (enabled s))) s))"
  by pat_completeness auto
termination
proof (relation "inv_image (less_than <*lex*> less_than <*lex*> less_than) (\<lambda>(L, sched, i, s). rank s)")
  show "wf (inv_image (less_than <*lex*> less_than <*lex*> less_than)
          (\<lambda>(L :: lib, sched :: nat \<Rightarrow> nat, i :: nat, s). rank s))"
    by (intro wf_inv_image wf_lex_prod wf_less_than)
next
  fix L :: lib and sched :: "nat \<Rightarrow> nat" and i :: nat and s :: run
  assume ne: "enabled s \<noteq> []"
  then have "enabled s ! (sched i mod length (enabled s)) \<in> set (enabled s)"
    by (intro nth_mem) simp
  then show "((L, sched, Suc i, step L (enabled s ! (sched i mod length (enabled s))) s), L, sched, i, s)
      \<in> inv_image (less_than <*lex*> less_than <*lex*> less_than) (\<lambda>(L, sched, i, s). rank s)"
    using step_decreases by simp
qed

declare run_loop.simps [simp del]

text \<open>The state of the run after the first \<open>k\<close> decisions of the scheduler.\<close>

fun run_prefix :: "lib \<Rightarrow> (nat \<Rightarrow> nat) \<Rightarrow> nat \<Rightarrow> nat \<Rightarrow> run \<Rightarrow> run" where
  "run_prefix L sched i 0 s = s"
| "run_prefix L sched i (Suc k) s =
     (if enabled s = [] then s
      else run_prefix L sched (Suc i) k (step L (enabled s ! (sched i mod length (enabled s))) s))"

subsection \<open>The run coordinator and the sweep: \<open>execute\<close>\<close>

text \<open>
  The last line of a block prints \<open>(times * n) / timer.elapsed()\<close>, a division of
  doubles. Floating-point arithmetic is not modelled: the printed value is kept as the
  quotient of its two operands, the unsigned product and the elapsed time (a parameter,
  since \<open>timer.h\<close> is not part of the sources at hand).
\<close>

datatype throughput = Quotient cuint real

record report =
  threads_line :: cuint
  iterations_line :: cuint
  fps_line :: throughput

text \<open>
  Lines 96 to 120, one iteration of the sweep loop: the run from fresh atomics, then
  either the error (printed after \<open>failure:\<close>, with \<open>std::runtime_error\<close> thrown) or
  the block that is printed.
\<close>

definition run_coordinator ::
  "lib \<Rightarrow> (nat \<Rightarrow> nat) \<Rightarrow> real \<Rightarrow> cuint \<Rightarrow> cuint \<Rightarrow> cint + report" where
  "run_coordinator L sched elapsed ntimes n =
     (let s = run_loop L sched 0 (init_run ntimes n) in
      if error s \<noteq> 0 then Inl (error s)
      else Inr \<lparr>threads_line = n, iterations_line = ntimes * n,
             fps_line = Quotient (ntimes * n) elapsed\<rparr>)"

text \<open>
  What the program does not decide: for the \<open>i\<close>-th run of a sweep the behaviour of the
  library, the scheduler and the elapsed time; and \<open>std::thread::hardware_concurrency\<close>.
\<close>

record world =
  lib_of :: "nat \<Rightarrow> lib"
  sched_of :: "nat \<Rightarrow> nat \<Rightarrow> nat"
  elapsed_of :: "nat \<Rightarrow> real"
  hardware_concurrency :: cuint

datatype outcome = Completed | Thrown cint

text \<open>
  The loop of line 95, where every thread is constructed. \<open>n\<close> is an \<open>unsigned\<close>:
  \<open>++n\<close> wraps around, so the loop need not end, and the model counts the iterations it
  may still make (\<open>None\<close> when they are used up). \<open>i\<close> numbers the runs of the sweep.
\<close>

fun sweep ::
  "nat \<Rightarrow> world \<Rightarrow> cuint \<Rightarrow> nat \<Rightarrow> cuint \<Rightarrow> cuint \<Rightarrow> (report list \<times> outcome) option" where
  "sweep 0 W ntimes i n thread_max = None"
| "sweep (Suc fuel) W ntimes i n thread_max =
     (if n \<le> thread_max then
        (case run_coordinator (lib_of W i) (sched_of W i) (elapsed_of W i) ntimes n of
           Inl e \<Rightarrow> Some ([], Thrown e)
         | Inr r \<Rightarrow>
             (case sweep fuel W ntimes (Suc i) (n + 1) thread_max of
                None \<Rightarrow> None
              | Some (rs, out) \<Rightarrow> Some (r # rs, out)))
      else Some ([], Completed))"

type_synonym AVPixelFormat = int

record Arguments =
  pixfmt_in :: AVPixelFormat
  pixfmt_out :: AVPixelFormat
  width_in :: cint
  height_in :: cint
  width_out :: cint
  height_out :: cint
  times_arg :: cuint
  threads_arg :: cuint

text \<open>The header line of line 91, as the six values it prints.\<close>

type_synonym header = "AVPixelFormat \<times> cint \<times> cint \<times> AVPixelFormat \<times> cint \<times> cint"

definition header_of :: "Arguments \<Rightarrow> header" where
  "header_of a = (pixfmt_in a, width_in a, height_in a, pixfmt_out a, width_out a, height_out a)"

definition thread_min :: "cuint \<Rightarrow> cuint" where
  "thread_min threads = (if threads \<noteq> 0 then threads else 1)"

definition thread_max :: "world \<Rightarrow> cuint \<Rightarrow> cuint" where
  "thread_max W threads = (if threads \<noteq> 0 then threads else hardware_concurrency W)"

text \<open>
  \<open>execute\<close>, called as in \<open>main\<close> with the fields of the arguments: what it prints on
  standard output (the header, then the blocks) and how it ends.
\<close>

definition execute ::
  "nat \<Rightarrow> world \<Rightarrow> Arguments \<Rightarrow> (header \<times> report list \<times> outcome) option" where
  "execute fuel W a =
     (case sweep fuel W (times_arg a) 0 (thread_min (threads_arg a))
             (thread_max W (threads_arg a)) of
        None \<Rightarrow> None
      | Some (rs, out) \<Rightarrow> Some (header_of a, rs, out))"

text \<open>
  \<open>main\<close> after \<open>argparse_parse\<close> has returned 0 (\<open>argparse.h\<close> is not part of the
  sources at hand): standard output and the exit status.
\<close>

definition main_parsed ::
  "nat \<Rightarrow> world \<Rightarrow> Arguments \<Rightarrow> ((header \<times> report list) \<times> int) option" where
  "main_parsed fuel W a =
     (case execute fuel W a of
        None \<Rightarrow> None
      | Some (h, rs, Completed) \<Rightarrow> Some ((h, rs), 0)
      | Some (h, rs, Thrown e) \<Rightarrow> Some ((h, rs), 1))"

subsection \<open>Thread construction can fail\<close>

text \<open>
  The constructor of \<open>std::thread\<close> (line 103) throws \<open>std::system_error\<close> when the
  thread cannot be started. \<open>ok i nn\<close> says whether the construction of thread \<open>nn\<close> of the
  \<open>i\<close>-th run of the sweep succeeds. A run stops at the first construction that fails:
  \<^item> when it is the first of the run, the vector of threads is still empty, and the
    exception leaves \<open>execute\<close>; it is a \<open>std::runtime_error\<close>, so \<open>main\<close> catches it, prints
    its message and returns 1, without the \<open>failure:\<close> line of line 113;
  \<^item> when it is a later one, unwinding destroys a vector that holds joinable threads,
    and the destructor of \<open>std::thread\<close> calls \<open>std::terminate\<close>: the process is aborted,
    with no block for the run and no message of the program.
  A run all of whose constructions succeed is the run of \<open>run_coordinator\<close>.
\<close>

datatype ending = Returned outcome | SystemError | Terminated

fun sweep_spawn ::
  "nat \<Rightarrow> (nat \<Rightarrow> nat \<Rightarrow> bool) \<Rightarrow> world \<Rightarrow> cuint \<Rightarrow> nat \<Rightarrow> cuint \<Rightarrow> cuint \<Rightarrow>
   (report list \<times> ending) option" where
  "sweep_spawn 0 ok W ntimes i n tmax = None"
| "sweep_spawn (Suc fuel) ok W ntimes i n tmax =
     (if n \<le> tmax then
        (case find (\<lambda>nn. \<not> ok i nn) [0..<unat n] of
           Some nn \<Rightarrow> Some ([], if nn = 0 then SystemError else Terminated)
         | None \<Rightarrow>
             (case run_coordinator (lib_of W i) (sched_of W i) (elapsed_of W i) ntimes n of
                Inl e \<Rightarrow> Some ([], Returned (Thrown e))
              | Inr r \<Rightarrow>
                  (case sweep_spawn fuel ok W ntimes (Suc i) (n + 1) tmax of
                     None \<Rightarrow> None
                   | Some (rs, out) \<Rightarrow> Some (r # rs, out))))
      else Some ([], Returned Completed))"

definition execute_spawn ::
  "nat \<Rightarrow> (nat \<Rightarrow> nat \<Rightarrow> bool) \<Rightarrow> world \<Rightarrow> Arguments \<Rightarrow>
   (header \<times> report list \<times> ending) option" where
  "execute_spawn fuel ok W a =
     (case sweep_spawn fuel ok W (times_arg a) 0 (thread_min (threads_arg a))
             (thread_max W (threads_arg a)) of
        None \<Rightarrow> None
      | Some (rs, out) \<Rightarrow> Some (header_of a, rs, out))"

subsection \<open>Example inputs\<close>

text \<open>
  A library whose calls all succeed, one whose \<open>sws_scale\<close> fails, and one whose
  \<open>sws_getContext\<close> fails in thread 0; the scheduler that always picks the first enabled
  step; the defaults of \<open>main\<close> (with numbers standing for the two pixel formats).
\<close>

definition lib_all_ok :: lib where
  "lib_all_ok =
     \<lparr>sws_getContext = (\<lambda>t. True), av_frame_alloc_src = (\<lambda>t. True),
      av_frame_alloc_dst = (\<lambda>t. True), av_frame_get_buffer_src = (\<lambda>t. 0),
      av_frame_get_buffer_dst = (\<lambda>t. 0), sws_scale = (\<lambda>t k. 1080)\<rparr>"

definition lib_scale_fails :: lib where
  "lib_scale_fails = lib_all_ok\<lparr>sws_scale := (\<lambda>t k. - 1)\<rparr>"

definition lib_context_fails :: lib where
  "lib_context_fails = lib_all_ok\<lparr>sws_getContext := (\<lambda>t. t \<noteq> 0)\<rparr>"

definition sched_first :: "nat \<Rightarrow> nat" where
  "sched_first i = 0"

definition example_args :: Arguments where
  "example_args =
     \<lparr>pixfmt_in = 62, pixfmt_out = 71, width_in = 1280, height_in = 720,
      width_out = 1920, height_out = 1080, times_arg = 100, threads_arg = 0\<rparr>"

definition example_world :: "lib \<Rightarrow> real \<Rightarrow> cuint \<Rightarrow> world" where
  "example_world L el hw =
     \<lparr>lib_of = (\<lambda>i. L), sched_of = (\<lambda>i. sched_first), elapsed_of = (\<lambda>i. el),
      hardware_concurrency = hw\<rparr>"

section \<open>Properties of a run\<close>

subsection \<open>What is counted\<close>

text \<open>
  A thread claims a unit of work when its post-decrement returns a positive value:
  \<open>units\<close> are the values a thread has claimed, \<open>claimed\<close> their number over all
  threads, \<open>breaks\<close> the number of post-decrements that returned a value that was
  not positive, \<open>total_calls\<close> the number of \<open>sws_scale\<close> calls made so far.
\<close>

definition units :: "worker \<Rightarrow> cint list" where
  "units w = filter (\<lambda>v. 0 <s v) (seen w)"

definition pos :: "worker \<Rightarrow> nat" where
  "pos w = length (units w)"

definition nonpos :: "worker \<Rightarrow> nat" where
  "nonpos w = length (filter (\<lambda>v. v \<le>s 0) (seen w))"

definition claimed :: "run \<Rightarrow> nat" where
  "claimed s = sum_list (map pos (thread_pool s))"

definition breaks :: "run \<Rightarrow> nat" where
  "breaks s = sum_list (map nonpos (thread_pool s))"

definition total_calls :: "run \<Rightarrow> nat" where
  "total_calls s = sum_list (map calls (thread_pool s))"

text \<open>A thread holds its context and both frames with their buffers, or none of them.\<close>

definition held :: "worker \<Rightarrow> bool" where
  "held w \<longleftrightarrow> sws w \<and> src_frame w = FrameBuffered \<and> dst_frame w = FrameBuffered"

definition released :: "worker \<Rightarrow> bool" where
  "released w \<longleftrightarrow> \<not> sws w \<and> src_frame w = FrameNull \<and> dst_frame w = FrameNull"

text \<open>The run is over: all \<open>n\<close> threads have been spawned and have returned.\<close>

definition joined :: "run \<Rightarrow> bool" where
  "joined s \<longleftrightarrow>
     length (thread_pool s) = unat (nthreads s) \<and> (\<forall>w \<in> set (thread_pool s). pc w = PDone)"

text \<open>All five construction calls of thread \<open>t\<close> succeed.\<close>

definition setup_ok :: "lib \<Rightarrow> nat \<Rightarrow> bool" where
  "setup_ok L t \<longleftrightarrow>
     sws_getContext L t \<and> av_frame_alloc_src L t \<and> av_frame_alloc_dst L t \<and>
     av_frame_get_buffer_src L t = 0 \<and> av_frame_get_buffer_dst L t = 0"

text \<open>No \<open>sws_scale\<close> call of thread \<open>t\<close> fails.\<close>

definition scale_ok :: "lib \<Rightarrow> nat \<Rightarrow> bool" where
  "scale_ok L t \<longleftrightarrow> (\<forall>k. \<not> sws_scale L t k <s 0)"

subsection \<open>Invariants\<close>

text \<open>
  What holds of every thread at every moment: a call follows each claim, a thread
  leaves the loop at the first value that is not positive, it holds its resources
  while it is in the loop and has released them when it is done.
\<close>

definition worker_ok :: "worker \<Rightarrow> bool" where
  "worker_ok w \<longleftrightarrow>
     calls w + (if pc w = PScale then 1 else 0) = pos w \<and>
     nonpos w \<le> 1 - active w \<and>
     (pc w = PInit \<longrightarrow> seen w = [] \<and> released w) \<and>
     (pc w = PLoop \<or> pc w = PScale \<longrightarrow> held w) \<and>
     (pc w = PDone \<longrightarrow> released w)"

definition pool_ok :: "run \<Rightarrow> bool" where
  "pool_ok s \<longleftrightarrow>
     length (thread_pool s) \<le> unat (nthreads s) \<and>
     (\<forall>t < length (thread_pool s). worker_ok (thread_pool s ! t))"


text \<open>
  Where every construction succeeds, \<open>err\<close> is zero in every thread that has passed
  line 65, and the error flag is zero.
\<close>

definition no_error_inv :: "run \<Rightarrow> bool" where
  "no_error_inv s \<longleftrightarrow>
     error s = 0 \<and> length (thread_pool s) \<le> unat (nthreads s) \<and>
     (\<forall>t < length (thread_pool s). pc (thread_pool s ! t) \<noteq> PInit \<longrightarrow> err (thread_pool s ! t) = 0)"

text \<open>
  The counter and the claims. \<open>v0\<close> is the initial value of the counter, read as an
  \<open>int\<close>. As long as no decrement wraps around, the counter is the initial value less
  the decrements made; no more than \<open>v0\<close> units are claimed; and once a thread has seen
  a value that is not positive, all \<open>v0\<close> units have been claimed.
\<close>

definition counter_inv :: "int \<Rightarrow> run \<Rightarrow> bool" where
  "counter_inv v0 s \<longleftrightarrow>
     sint (counter s) = v0 - int (claimed s) - int (breaks s) \<and>
     int (claimed s) \<le> max v0 0 \<and>
     (0 < breaks s \<longrightarrow> v0 \<le> int (claimed s))"

text \<open>
  No decrement of a run of \<open>N\<close> threads from \<open>v0\<close> wraps around: the counter goes down
  to zero by claims and then once more for each thread.
\<close>

definition no_wrap :: "int \<Rightarrow> nat \<Rightarrow> bool" where
  "no_wrap v0 N \<longleftrightarrow> - (2 ^ 31) \<le> min v0 0 - int N"

text \<open>
  The values the threads have seen are all different, within a thread and between
  two threads, and all above the present value of the counter.
\<close>

definition units_inv :: "run \<Rightarrow> bool" where
  "units_inv s \<longleftrightarrow>
     (\<forall>t < length (thread_pool s).
        distinct (seen (thread_pool s ! t)) \<and>
        (\<forall>v \<in> set (seen (thread_pool s ! t)). sint (counter s) < sint v)) \<and>
     (\<forall>t < length (thread_pool s). \<forall>u < length (thread_pool s).
        t \<noteq> u \<longrightarrow> set (seen (thread_pool s ! t)) \<inter> set (seen (thread_pool s ! u)) = {})"

definition run_inv :: "int \<Rightarrow> run \<Rightarrow> bool" where
  "run_inv v0 s \<longleftrightarrow> pool_ok s \<and> counter_inv v0 s \<and> units_inv s"

text \<open>
  Where no library call fails, a thread is past the loop only after it has seen a value
  that is not positive.
\<close>

definition all_broke :: "run \<Rightarrow> bool" where
  "all_broke s \<longleftrightarrow>
     (\<forall>t < length (thread_pool s).
        pc (thread_pool s ! t) = PFail \<or> pc (thread_pool s ! t) = PDone \<longrightarrow>
        nonpos (thread_pool s ! t) = 1)"

subsection \<open>The sweep in the words of the specification\<close>

text \<open>
  The thread counts of a list are run in order, from the \<open>i\<close>-th run of the sweep on;
  every successful run gives a block, and the first failing run ends the sweep with
  its error.
\<close>

fun runs_in_order :: "world \<Rightarrow> cuint \<Rightarrow> nat \<Rightarrow> cuint list \<Rightarrow> report list \<times> outcome" where
  "runs_in_order W ntimes i [] = ([], Completed)"
| "runs_in_order W ntimes i (n # ns) =
     (case run_coordinator (lib_of W i) (sched_of W i) (elapsed_of W i) ntimes n of
        Inl e \<Rightarrow> ([], Thrown e)
      | Inr r \<Rightarrow> (case runs_in_order W ntimes (Suc i) ns of (rs, out) \<Rightarrow> (r # rs, out)))"

subsection \<open>Steps and runs\<close>

lemma nthreads_step [simp]: "nthreads (step L e s) = nthreads s"
  by (cases e) (simp_all add: thread_step_def Let_def split: label.splits)

lemma enabled_Nil_iff:
  "enabled s = [] \<longleftrightarrow>
     unat (nthreads s) \<le> length (thread_pool s) \<and> (\<forall>w \<in> set (thread_pool s). pc w = PDone)"
proof -
  have "(\<forall>t \<in> set [0..<length (thread_pool s)]. pc (thread_pool s ! t) = PDone) \<longleftrightarrow>
      (\<forall>w \<in> set (thread_pool s). pc w = PDone)"
    unfolding all_set_conv_all_nth [of "thread_pool s"] by auto
  then show ?thesis
    by (simp add: enabled_def filter_empty_conv not_less del: set_upt)
qed

lemma enabled_step_cases [consumes 1, case_names Spawn Init Break Claim Scale Fail]:
  assumes "e \<in> set (enabled s)"
  obtains
    (Spawn) "length (thread_pool s) < unat (nthreads s)"
      "step L e s = s\<lparr>thread_pool := thread_pool s @ [thread_start]\<rparr>"
  | (Init) t where "t < length (thread_pool s)" "pc (thread_pool s ! t) = PInit"
      "step L e s = s\<lparr>thread_pool := (thread_pool s)[t := thread_setup L t (thread_pool s ! t)]\<rparr>"
  | (Break) t where "t < length (thread_pool s)" "pc (thread_pool s ! t) = PLoop"
      "counter s \<le>s 0"
      "step L e s = s\<lparr>counter := counter s - 1,
         thread_pool := (thread_pool s)[t :=
           (thread_pool s ! t)\<lparr>seen := counter s # seen (thread_pool s ! t), err := 0, pc := PFail\<rparr>]\<rparr>"
  | (Claim) t where "t < length (thread_pool s)" "pc (thread_pool s ! t) = PLoop"
      "0 <s counter s"
      "step L e s = s\<lparr>counter := counter s - 1,
         thread_pool := (thread_pool s)[t :=
           (thread_pool s ! t)\<lparr>seen := counter s # seen (thread_pool s ! t), pc := PScale\<rparr>]\<rparr>"
  | (Scale) t where "t < length (thread_pool s)" "pc (thread_pool s ! t) = PScale"
      "step L e s = s\<lparr>thread_pool := (thread_pool s)[t :=
         (thread_pool s ! t)\<lparr>calls := calls (thread_pool s ! t) + 1,
           pc := (if sws_scale L t (calls (thread_pool s ! t)) <s 0 then PFail else PLoop)\<rparr>]\<rparr>"
  | (Fail) t where "t < length (thread_pool s)" "pc (thread_pool s ! t) = PFail"
      "step L e s =
         s\<lparr>error := (if err (thread_pool s ! t) \<noteq> 0 then err (thread_pool s ! t) else error s),
           thread_pool := (thread_pool s)[t :=
             (thread_pool s ! t)\<lparr>src_frame := FrameNull, dst_frame := FrameNull, sws := False,
               pc := PDone\<rparr>]\<rparr>"
proof (cases e)
  case Spawn
  with assms show ?thesis
    by (intro that(1)) (simp_all add: enabled_Spawn)
next
  case (Run t)
  with assms have t: "t < length (thread_pool s)" and nd: "pc (thread_pool s ! t) \<noteq> PDone"
    by (simp_all add: enabled_Run)
  show ?thesis
  proof (cases "pc (thread_pool s ! t)")
    case PInit
    then show ?thesis using t Run by (intro that(2) [of t]) (simp_all add: thread_step_PInit)
  next
    case PLoop
    show ?thesis
    proof (cases "counter s \<le>s 0")
      case True
      then show ?thesis
        using t Run PLoop by (intro that(3) [of t]) (simp_all add: thread_step_break)
    next
      case False
      then have "0 <s counter s" by (simp add: word_sless_alt word_sle_eq)
      with False show ?thesis
        using t Run PLoop by (intro that(4) [of t]) (simp_all add: thread_step_claim)
    qed
  next
    case PScale
    then show ?thesis using t Run by (intro that(5) [of t]) (simp_all add: thread_step_PScale)
  next
    case PFail
    then show ?thesis using t Run by (intro that(6) [of t]) (simp_all add: thread_step_PFail)
  next
    case PDone
    with nd show ?thesis by simp
  qed
qed

lemma run_prefix_invariant:
  assumes "\<And>s e. P s \<Longrightarrow> e \<in> set (enabled s) \<Longrightarrow> P (step L e s)" and "P s"
  shows "P (run_prefix L sched i k s)"
  using assms(2)
proof (induction k arbitrary: i s)
  case 0
  then show ?case by simp
next
  case (Suc k)
  show ?case
  proof (cases "enabled s = []")
    case True
    with Suc.prems show ?thesis by simp
  next
    case False
    then have "enabled s ! (sched i mod length (enabled s)) \<in> set (enabled s)"
      by (intro nth_mem) simp
    with Suc.prems have "P (step L (enabled s ! (sched i mod length (enabled s))) s)"
      by (rule assms(1))
    with False show ?thesis by (simp add: Suc.IH)
  qed
qed

lemma run_loop_invariant:
  assumes "\<And>s e. P s \<Longrightarrow> e \<in> set (enabled s) \<Longrightarrow> P (step L e s)" and "P s"
  shows "P (run_loop L sched i s)"
  using assms
proof (induction L sched i s rule: run_loop.induct)
  case (1 L sched i s)
  show ?case
  proof (cases "enabled s = []")
    case True
    with "1.prems"(2) show ?thesis by (subst run_loop.simps) simp
  next
    case False
    then have "enabled s ! (sched i mod length (enabled s)) \<in> set (enabled s)"
      by (intro nth_mem) simp
    with "1.prems" have "P (step L (enabled s ! (sched i mod length (enabled s))) s)"
      by blast
    with False "1.IH" "1.prems"(1) show ?thesis by (subst run_loop.simps) simp
  qed
qed

lemma run_loop_enabled: "enabled (run_loop L sched i s) = []"
proof (induction L sched i s rule: run_loop.induct)
  case (1 L sched i s)
  then show ?case by (subst run_loop.simps) simp
qed

lemma run_loop_unfold_done: "enabled s = [] \<Longrightarrow> run_loop L sched i s = s"
  by (subst run_loop.simps) simp

lemma run_loop_unfold_step:
  "enabled s \<noteq> [] \<Longrightarrow>
   run_loop L sched i s =
     run_loop L sched (Suc i) (step L (enabled s ! (sched i mod length (enabled s))) s)"
  by (subst run_loop.simps) simp

lemma run_loop_prefix: "\<exists>k. run_loop L sched i s = run_prefix L sched i k s"
proof (induction L sched i s rule: run_loop.induct)
  case (1 L sched i s)
  show ?case
  proof (cases "enabled s = []")
    case True
    then have "run_loop L sched i s = run_prefix L sched i 0 s"
      by (simp add: run_loop_unfold_done)
    then show ?thesis ..
  next
    case False
    let ?s' = "step L (enabled s ! (sched i mod length (enabled s))) s"
    from "1.IH" [OF False] obtain k where
      k: "run_loop L sched (Suc i) ?s' = run_prefix L sched (Suc i) k ?s'" ..
    have "run_loop L sched i s = run_prefix L sched i (Suc k) s"
      using False k by (simp add: run_loop_unfold_step)
    then show ?thesis ..
  qed
qed

subsection \<open>The invariants hold\<close>

lemma worker_ok_thread_start: "worker_ok thread_start"
  by (simp add: worker_ok_def thread_start_def pos_def units_def nonpos_def active_def released_def)

lemma worker_ok_thread_setup:
  "pc w = PInit \<Longrightarrow> worker_ok w \<Longrightarrow> worker_ok (thread_setup L t w)"
  by (simp add: worker_ok_def thread_setup_def pos_def units_def nonpos_def active_def held_def)

lemma worker_ok_break:
  "pc w = PLoop \<Longrightarrow> c \<le>s 0 \<Longrightarrow> worker_ok w \<Longrightarrow>
   worker_ok (w\<lparr>seen := c # seen w, err := 0, pc := PFail\<rparr>)"
  by (simp add: worker_ok_def pos_def units_def nonpos_def active_def word_sless_alt word_sle_eq)

lemma worker_ok_claim:
  "pc w = PLoop \<Longrightarrow> 0 <s c \<Longrightarrow> worker_ok w \<Longrightarrow>
   worker_ok (w\<lparr>seen := c # seen w, pc := PScale\<rparr>)"
  by (simp add: worker_ok_def pos_def units_def nonpos_def active_def held_def word_sless_alt word_sle_eq)

lemma worker_ok_scale:
  "pc w = PScale \<Longrightarrow> worker_ok w \<Longrightarrow> l = PFail \<or> l = PLoop \<Longrightarrow>
   worker_ok (w\<lparr>calls := calls w + 1, pc := l\<rparr>)"
  by (auto simp: worker_ok_def pos_def units_def nonpos_def active_def held_def)

lemma worker_ok_fail:
  "pc w = PFail \<Longrightarrow> worker_ok w \<Longrightarrow>
   worker_ok (w\<lparr>src_frame := FrameNull, dst_frame := FrameNull, sws := False, pc := PDone\<rparr>)"
  by (simp add: worker_ok_def pos_def units_def nonpos_def active_def released_def)

lemma pool_ok_init_run: "pool_ok (init_run ntimes n)"
  by (simp add: pool_ok_def init_run_def)

lemma pool_ok_step:
  assumes "pool_ok s" and "e \<in> set (enabled s)"
  shows "pool_ok (step L e s)"
  using assms(2)
proof (cases rule: enabled_step_cases [where L = L])
  case Spawn
  with assms(1) show ?thesis
    by (auto simp: pool_ok_def nth_append worker_ok_thread_start)
next
  case (Init t)
  with assms(1) show ?thesis
    by (auto simp: pool_ok_def nth_list_update worker_ok_thread_setup)
next
  case (Break t)
  with assms(1) show ?thesis
    by (auto simp: pool_ok_def nth_list_update worker_ok_break)
next
  case (Claim t)
  with assms(1) show ?thesis
    by (auto simp: pool_ok_def nth_list_update worker_ok_claim)
next
  case (Scale t)
  with assms(1) show ?thesis
    by (auto simp: pool_ok_def nth_list_update worker_ok_scale simp del: One_nat_def)
next
  case (Fail t)
  with assms(1) show ?thesis
    by (auto simp: pool_ok_def nth_list_update worker_ok_fail)
qed

lemma error_step: "error s \<noteq> 0 \<Longrightarrow> error (step L e s) \<noteq> 0"
  by (cases e) (simp_all add: thread_step_def Let_def split: label.splits)




lemma no_error_inv_init_run: "no_error_inv (init_run ntimes n)"
  by (simp add: no_error_inv_def init_run_def)

lemma no_error_inv_step:
  assumes "no_error_inv s" and "e \<in> set (enabled s)"
    and ok: "\<forall>t < unat (nthreads s). setup_ok L t"
  shows "no_error_inv (step L e s)"
  using assms(2)
proof (cases rule: enabled_step_cases [where L = L])
  case Spawn
  with assms(1) show ?thesis
    by (auto simp: no_error_inv_def nth_append thread_start_def)
next
  case (Init t)
  with assms(1) have "setup_ok L t" using ok by (simp add: no_error_inv_def)
  then have "err (thread_setup L t (thread_pool s ! t)) = 0"
    by (simp add: thread_setup_def setup_ok_def)
  with Init assms(1) show ?thesis
    by (auto simp: no_error_inv_def nth_list_update)
next
  case (Break t)
  with assms(1) show ?thesis
    by (auto simp: no_error_inv_def nth_list_update)
next
  case (Claim t)
  with assms(1) show ?thesis
    by (auto simp: no_error_inv_def nth_list_update)
next
  case (Scale t)
  with assms(1) show ?thesis
    by (auto simp: no_error_inv_def nth_list_update)
next
  case (Fail t)
  with assms(1) show ?thesis
    by (auto simp: no_error_inv_def nth_list_update)
qed

lemma run_prefix_done: "enabled s = [] \<Longrightarrow> run_prefix L sched i k s = s"
  by (cases k) simp_all

lemma run_prefix_add:
  "run_prefix L sched i (k + j) s = run_prefix L sched (i + k) j (run_prefix L sched i k s)"
proof (induction k arbitrary: i s)
  case 0
  then show ?case by simp
next
  case (Suc k)
  show ?case
  proof (cases "enabled s = []")
    case True
    then show ?thesis by (simp add: run_prefix_done)
  next
    case False
    then show ?thesis using Suc.IH [of "Suc i"] by simp
  qed
qed

lemma run_loop_run_prefix:
  "run_loop L sched i s = run_loop L sched (i + k) (run_prefix L sched i k s)"
proof (induction k arbitrary: i s)
  case 0
  then show ?case by simp
next
  case (Suc k)
  show ?case
  proof (cases "enabled s = []")
    case True
    then show ?thesis by (simp add: run_loop_unfold_done)
  next
    case False
    then show ?thesis using Suc.IH [of "Suc i"] by (simp add: run_loop_unfold_step)
  qed
qed

lemma error_run_prefix: "error s \<noteq> 0 \<Longrightarrow> error (run_prefix L sched i k s) \<noteq> 0"
  by (rule run_prefix_invariant [where P = "\<lambda>s. error s \<noteq> 0"]) (simp_all add: error_step)

lemma error_run_loop: "error s \<noteq> 0 \<Longrightarrow> error (run_loop L sched i s) \<noteq> 0"
  by (rule run_loop_invariant [where P = "\<lambda>s. error s \<noteq> 0"]) (simp_all add: error_step)

lemma pool_ok_run_prefix: "pool_ok (run_prefix L sched 0 k (init_run ntimes n))"
  by (rule run_prefix_invariant [where P = pool_ok]) (simp_all add: pool_ok_step pool_ok_init_run)

lemma pool_ok_run_loop: "pool_ok (run_loop L sched 0 (init_run ntimes n))"
  by (rule run_loop_invariant [where P = pool_ok]) (simp_all add: pool_ok_step pool_ok_init_run)

lemma nthreads_run_loop: "nthreads (run_loop L sched i s) = nthreads s"
  by (rule run_loop_invariant [where P = "\<lambda>s'. nthreads s' = nthreads s"]) simp_all

lemma nthreads_run_prefix: "nthreads (run_prefix L sched i k s) = nthreads s"
  by (rule run_prefix_invariant [where P = "\<lambda>s'. nthreads s' = nthreads s"]) simp_all

lemma joined_run_loop: "joined (run_loop L sched 0 (init_run ntimes n))"
  using pool_ok_run_loop [of L sched ntimes n] run_loop_enabled [of L sched 0 "init_run ntimes n"]
  by (simp add: joined_def pool_ok_def enabled_Nil_iff)



lemma no_error_inv_run_loop:
  assumes "\<forall>t < unat n. setup_ok L t"
  shows "no_error_inv (run_loop L sched 0 (init_run ntimes n))"
proof -
  have "no_error_inv (run_loop L sched 0 (init_run ntimes n)) \<and>
      nthreads (run_loop L sched 0 (init_run ntimes n)) = n"
    by (rule run_loop_invariant [where P = "\<lambda>s. no_error_inv s \<and> nthreads s = n"])
      (use assms no_error_inv_init_run [of ntimes n] in
        \<open>simp_all add: no_error_inv_step init_run_def\<close>)
  then show ?thesis ..
qed

subsection \<open>The counter\<close>

lemma seen_thread_setup [simp]: "seen (thread_setup L t w) = seen w"
  by (simp add: thread_setup_def)

lemma pos_thread_setup [simp]: "pos (thread_setup L t w) = pos w"
  by (simp add: pos_def units_def)

lemma nonpos_thread_setup [simp]: "nonpos (thread_setup L t w) = nonpos w"
  by (simp add: nonpos_def)

lemma sum_list_le_length:
  fixes f :: "'a \<Rightarrow> nat"
  shows "\<forall>t < length xs. f (xs ! t) \<le> 1 \<Longrightarrow> sum_list (map f xs) \<le> length xs"
proof (induction xs)
  case Nil
  then show ?case by simp
next
  case (Cons a xs)
  from Cons.prems have "f a \<le> 1" by auto
  moreover from Cons.prems have "\<forall>t < length xs. f (xs ! t) \<le> 1" by auto
  ultimately show ?case using Cons.IH by simp
qed

lemma sum_list_eq_length:
  fixes f :: "'a \<Rightarrow> nat"
  shows "\<forall>t < length xs. f (xs ! t) = 1 \<Longrightarrow> sum_list (map f xs) = length xs"
proof (induction xs)
  case Nil
  then show ?case by simp
next
  case (Cons a xs)
  from Cons.prems have "f a = 1" by auto
  moreover from Cons.prems have "\<forall>t < length xs. f (xs ! t) = 1" by auto
  ultimately show ?case using Cons.IH by simp
qed

lemma sum_list_nth_le:
  fixes f :: "'a \<Rightarrow> nat"
  shows "t < length xs \<Longrightarrow> f (xs ! t) \<le> sum_list (map f xs)"
proof (induction xs arbitrary: t)
  case Nil
  then show ?case by simp
next
  case (Cons a xs)
  then show ?case by (cases t) (auto simp: trans_le_add2)
qed

lemma breaks_active_le:
  assumes "pool_ok s"
  shows "breaks s + sum_list (map active (thread_pool s)) \<le> length (thread_pool s)"
proof -
  have "\<forall>t < length (thread_pool s).
      nonpos (thread_pool s ! t) + active (thread_pool s ! t) \<le> 1"
    using assms by (auto simp: pool_ok_def worker_ok_def active_def)
  then have "sum_list (map (\<lambda>w. nonpos w + active w) (thread_pool s)) \<le> length (thread_pool s)"
    by (rule sum_list_le_length)
  then show ?thesis
    by (simp add: breaks_def sum_list_addf)
qed

lemma breaks_less:
  assumes "pool_ok s" and "t < length (thread_pool s)" and "pc (thread_pool s ! t) = PLoop"
  shows "breaks s < unat (nthreads s)"
proof -
  have "active (thread_pool s ! t) = 1"
    using assms(3) by (simp add: active_def)
  then have "1 \<le> sum_list (map active (thread_pool s))"
    using sum_list_nth_le [OF assms(2), of active] by simp
  with breaks_active_le [OF assms(1)] assms(1) show ?thesis
    by (simp add: pool_ok_def)
qed

lemma counter_above_min:
  assumes "pool_ok s" and "counter_inv v0 s" and "no_wrap v0 (unat (nthreads s))"
    and "t < length (thread_pool s)" and "pc (thread_pool s ! t) = PLoop"
  shows "- (2 ^ 31) < sint (counter s)"
proof -
  have "int (breaks s) < int (unat (nthreads s))"
    using breaks_less [OF assms(1,4,5)] by (simp only: of_nat_less_iff)
  moreover have "sint (counter s) = v0 - int (claimed s) - int (breaks s)"
    "int (claimed s) \<le> max v0 0"
    using assms(2) by (simp_all add: counter_inv_def)
  moreover have "- (2 ^ 31) \<le> min v0 0 - int (unat (nthreads s))"
    using assms(3) by (simp only: no_wrap_def)
  ultimately show ?thesis
    by arith
qed

lemma sint_counter_dec:
  assumes "pool_ok s" and "counter_inv v0 s" and "no_wrap v0 (unat (nthreads s))"
    and "t < length (thread_pool s)" and "pc (thread_pool s ! t) = PLoop"
  shows "sint (counter s - 1) = sint (counter s) - 1"
  using counter_above_min [OF assms] by (rule sint_dec)

lemma claimed_update:
  assumes "t < length (thread_pool s)" and "thread_pool s' = (thread_pool s)[t := w']"
  shows "claimed s' + pos (thread_pool s ! t) = claimed s + pos w'"
  using sum_list_map_update [OF assms(1), of pos w'] by (simp add: claimed_def assms(2))

lemma breaks_update:
  assumes "t < length (thread_pool s)" and "thread_pool s' = (thread_pool s)[t := w']"
  shows "breaks s' + nonpos (thread_pool s ! t) = breaks s + nonpos w'"
  using sum_list_map_update [OF assms(1), of nonpos w'] by (simp add: breaks_def assms(2))

lemma calls_update:
  assumes "t < length (thread_pool s)" and "thread_pool s' = (thread_pool s)[t := w']"
  shows "total_calls s' + calls (thread_pool s ! t) = total_calls s + calls w'"
  using sum_list_map_update [OF assms(1), of calls w'] by (simp add: total_calls_def assms(2))

lemma counter_inv_init_run: "counter_inv (sint (ntimes * n)) (init_run ntimes n)"
  by (simp add: counter_inv_def init_run_def claimed_def breaks_def)

lemma counter_inv_unchanged:
  assumes "counter_inv v0 s" and "counter s' = counter s" and "claimed s' = claimed s"
    and "breaks s' = breaks s"
  shows "counter_inv v0 s'"
  using assms by (simp add: counter_inv_def)

lemma counter_inv_step:
  assumes "counter_inv v0 s" and "pool_ok s" and "no_wrap v0 (unat (nthreads s))"
    and "e \<in> set (enabled s)"
  shows "counter_inv v0 (step L e s)"
  using assms(4)
proof (cases rule: enabled_step_cases [where L = L])
  case Spawn
  show ?thesis
    by (rule counter_inv_unchanged [OF assms(1)])
      (simp_all add: Spawn claimed_def breaks_def thread_start_def pos_def units_def nonpos_def)
next
  case (Init t)
  from claimed_update [OF Init(1), of "step L e s" "thread_setup L t (thread_pool s ! t)"]
    breaks_update [OF Init(1), of "step L e s" "thread_setup L t (thread_pool s ! t)"]
  have "claimed (step L e s) = claimed s" "breaks (step L e s) = breaks s"
    by (simp_all add: Init(3))
  then show ?thesis
    by (intro counter_inv_unchanged [OF assms(1)]) (simp_all add: Init(3))
next
  case (Break t)
  let ?w' = "(thread_pool s ! t)\<lparr>seen := counter s # seen (thread_pool s ! t), err := 0, pc := PFail\<rparr>"
  from claimed_update [OF Break(1), of "step L e s" ?w'] breaks_update [OF Break(1), of "step L e s" ?w']
  have "claimed (step L e s) = claimed s" "breaks (step L e s) = breaks s + 1"
    using Break(3) by (simp_all add: Break(4) pos_def units_def nonpos_def word_sless_alt word_sle_eq)
  moreover have "sint (counter (step L e s)) = sint (counter s) - 1"
    using sint_counter_dec [OF assms(2,1,3) Break(1,2)] by (simp add: Break(4))
  moreover have "sint (counter s) \<le> 0"
    using Break(3) by (simp add: word_sle_eq)
  moreover have "sint (counter s) = v0 - int (claimed s) - int (breaks s)"
    "int (claimed s) \<le> max v0 0" "0 < breaks s \<longrightarrow> v0 \<le> int (claimed s)"
    using assms(1) by (simp_all add: counter_inv_def)
  ultimately show ?thesis
    unfolding counter_inv_def by (cases "breaks s = 0") simp_all
next
  case (Claim t)
  let ?w' = "(thread_pool s ! t)\<lparr>seen := counter s # seen (thread_pool s ! t), pc := PScale\<rparr>"
  from claimed_update [OF Claim(1), of "step L e s" ?w'] breaks_update [OF Claim(1), of "step L e s" ?w']
  have "claimed (step L e s) = claimed s + 1" "breaks (step L e s) = breaks s"
    using Claim(3) by (simp_all add: Claim(4) pos_def units_def nonpos_def word_sless_alt word_sle_eq)
  moreover have "sint (counter (step L e s)) = sint (counter s) - 1"
    using sint_counter_dec [OF assms(2,1,3) Claim(1,2)] by (simp add: Claim(4))
  moreover have "0 < sint (counter s)"
    using Claim(3) by (simp add: word_sless_alt)
  moreover have "sint (counter s) = v0 - int (claimed s) - int (breaks s)"
    "int (claimed s) \<le> max v0 0" "0 < breaks s \<longrightarrow> v0 \<le> int (claimed s)"
    using assms(1) by (simp_all add: counter_inv_def)
  ultimately show ?thesis
    unfolding counter_inv_def by (cases "breaks s = 0") simp_all
next
  case (Scale t)
  let ?w' = "(thread_pool s ! t)\<lparr>calls := calls (thread_pool s ! t) + 1,
    pc := (if sws_scale L t (calls (thread_pool s ! t)) <s 0 then PFail else PLoop)\<rparr>"
  from claimed_update [OF Scale(1), of "step L e s" ?w'] breaks_update [OF Scale(1), of "step L e s" ?w']
  have "claimed (step L e s) = claimed s" "breaks (step L e s) = breaks s"
    by (simp_all add: Scale(3) pos_def units_def nonpos_def)
  then show ?thesis
    by (intro counter_inv_unchanged [OF assms(1)]) (simp_all add: Scale(3))
next
  case (Fail t)
  let ?w' = "(thread_pool s ! t)\<lparr>src_frame := FrameNull, dst_frame := FrameNull, sws := False,
    pc := PDone\<rparr>"
  from claimed_update [OF Fail(1), of "step L e s" ?w'] breaks_update [OF Fail(1), of "step L e s" ?w']
  have "claimed (step L e s) = claimed s" "breaks (step L e s) = breaks s"
    by (simp_all add: Fail(3) pos_def units_def nonpos_def)
  then show ?thesis
    by (intro counter_inv_unchanged [OF assms(1)]) (simp_all add: Fail(3))
qed

lemma units_inv_init_run: "units_inv (init_run ntimes n)"
  by (simp add: units_inv_def init_run_def)

lemma units_inv_seen:
  assumes "units_inv s" and "t < length (thread_pool s)"
    and dec: "sint (counter s - 1) = sint (counter s) - 1"
    and w': "seen w' = counter s # seen (thread_pool s ! t)"
  shows "units_inv (s\<lparr>counter := counter s - 1, thread_pool := (thread_pool s)[t := w']\<rparr>)"
proof -
  have above: "\<And>u v. u < length (thread_pool s) \<Longrightarrow> v \<in> set (seen (thread_pool s ! u)) \<Longrightarrow>
      sint (counter s) < sint v"
    using assms(1) by (simp add: units_inv_def)
  have above': "\<And>u v. u < length (thread_pool s) \<Longrightarrow> v \<in> set (seen (thread_pool s ! u)) \<Longrightarrow>
      sint (counter s) - 1 < sint v"
    using above by fastforce
  from above have fresh: "\<And>u. u < length (thread_pool s) \<Longrightarrow> counter s \<notin> set (seen (thread_pool s ! u))"
    by fastforce
  have dist: "\<And>u. u < length (thread_pool s) \<Longrightarrow> distinct (seen (thread_pool s ! u))"
    using assms(1) by (simp add: units_inv_def)
  have disj: "\<And>u u'. u < length (thread_pool s) \<Longrightarrow> u' < length (thread_pool s) \<Longrightarrow> u \<noteq> u' \<Longrightarrow>
      set (seen (thread_pool s ! u)) \<inter> set (seen (thread_pool s ! u')) = {}"
    using assms(1) by (simp add: units_inv_def)
  show ?thesis
    unfolding units_inv_def
  proof (intro conjI allI impI)
    fix u
    assume "u < length (thread_pool (s\<lparr>counter := counter s - 1, thread_pool := (thread_pool s)[t := w']\<rparr>))"
    then have u: "u < length (thread_pool s)" by simp
    show "distinct (seen (thread_pool (s\<lparr>counter := counter s - 1,
        thread_pool := (thread_pool s)[t := w']\<rparr>) ! u))"
      using u dist [of u] fresh [of t] assms(2) by (auto simp: nth_list_update w')
    show "\<forall>v \<in> set (seen (thread_pool (s\<lparr>counter := counter s - 1,
        thread_pool := (thread_pool s)[t := w']\<rparr>) ! u)).
        sint (counter (s\<lparr>counter := counter s - 1, thread_pool := (thread_pool s)[t := w']\<rparr>)) < sint v"
      using u above' [of u] above' [of t] assms(2) by (auto simp: nth_list_update w' dec)
  next
    fix u u'
    assume "u < length (thread_pool (s\<lparr>counter := counter s - 1, thread_pool := (thread_pool s)[t := w']\<rparr>))"
      "u' < length (thread_pool (s\<lparr>counter := counter s - 1, thread_pool := (thread_pool s)[t := w']\<rparr>))"
      "u \<noteq> u'"
    then have u: "u < length (thread_pool s)" "u' < length (thread_pool s)" "u \<noteq> u'" by simp_all
    show "set (seen (thread_pool (s\<lparr>counter := counter s - 1,
        thread_pool := (thread_pool s)[t := w']\<rparr>) ! u)) \<inter>
      set (seen (thread_pool (s\<lparr>counter := counter s - 1,
        thread_pool := (thread_pool s)[t := w']\<rparr>) ! u')) = {}"
      using u disj [of u u'] fresh [of u] fresh [of u'] assms(2)
      by (auto simp: nth_list_update w')
  qed
qed

lemma units_inv_same:
  assumes "units_inv s" and "t < length (thread_pool s)"
    and "seen w' = seen (thread_pool s ! t)"
  shows "units_inv (s\<lparr>error := x, thread_pool := (thread_pool s)[t := w']\<rparr>)"
  using assms unfolding units_inv_def
  by (simp add: nth_list_update)

lemma units_inv_step:
  assumes "units_inv s" and "counter_inv v0 s" and "pool_ok s"
    and "no_wrap v0 (unat (nthreads s))" and "e \<in> set (enabled s)"
  shows "units_inv (step L e s)"
  using assms(5)
proof (cases rule: enabled_step_cases [where L = L])
  case Spawn
  with assms(1) show ?thesis
    by (auto simp: units_inv_def nth_append thread_start_def)
next
  case (Init t)
  show ?thesis
    using units_inv_same [OF assms(1) Init(1), of "thread_setup L t (thread_pool s ! t)" "error s"]
    by (simp add: Init(3))
next
  case (Break t)
  show ?thesis
    using units_inv_seen [OF assms(1) Break(1) sint_counter_dec [OF assms(3,2,4) Break(1,2)]]
    by (simp add: Break(4))
next
  case (Claim t)
  show ?thesis
    using units_inv_seen [OF assms(1) Claim(1) sint_counter_dec [OF assms(3,2,4) Claim(1,2)]]
    by (simp add: Claim(4))
next
  case (Scale t)
  show ?thesis
    using units_inv_same [OF assms(1) Scale(1), of _ "error s"]
    by (simp add: Scale(3))
next
  case (Fail t)
  show ?thesis
    using units_inv_same [OF assms(1) Fail(1)]
    by (simp add: Fail(3))
qed

lemma run_inv_init_run: "run_inv (sint (ntimes * n)) (init_run ntimes n)"
  by (simp add: run_inv_def pool_ok_init_run counter_inv_init_run units_inv_init_run)

lemma run_inv_step:
  assumes "run_inv v0 s" and "no_wrap v0 (unat (nthreads s))" and "e \<in> set (enabled s)"
  shows "run_inv v0 (step L e s)"
  using assms units_inv_step [of s v0 e L]
  by (simp add: run_inv_def pool_ok_step counter_inv_step)

lemma counter_step_le:
  assumes "run_inv v0 s" and "no_wrap v0 (unat (nthreads s))" and "e \<in> set (enabled s)"
  shows "sint (counter (step L e s)) \<le> sint (counter s)"
  using assms(3)
proof (cases rule: enabled_step_cases [where L = L])
  case (Break t)
  then show ?thesis
    using sint_counter_dec [of s v0 t] assms(1,2) by (simp add: run_inv_def)
next
  case (Claim t)
  then show ?thesis
    using sint_counter_dec [of s v0 t] assms(1,2) by (simp add: run_inv_def)
qed simp_all

lemma run_inv_run_prefix:
  assumes "no_wrap (sint (ntimes * n)) (unat n)"
  shows "run_inv (sint (ntimes * n)) (run_prefix L sched 0 k (init_run ntimes n))"
proof -
  have "run_inv (sint (ntimes * n)) (run_prefix L sched 0 k (init_run ntimes n)) \<and>
      nthreads (run_prefix L sched 0 k (init_run ntimes n)) = n"
    by (rule run_prefix_invariant [where P = "\<lambda>s. run_inv (sint (ntimes * n)) s \<and> nthreads s = n"])
      (use assms run_inv_init_run [of ntimes n] in \<open>simp_all add: run_inv_step init_run_def\<close>)
  then show ?thesis ..
qed

lemma run_inv_run_loop:
  assumes "no_wrap (sint (ntimes * n)) (unat n)"
  shows "run_inv (sint (ntimes * n)) (run_loop L sched 0 (init_run ntimes n))"
proof -
  have "run_inv (sint (ntimes * n)) (run_loop L sched 0 (init_run ntimes n)) \<and>
      nthreads (run_loop L sched 0 (init_run ntimes n)) = n"
    by (rule run_loop_invariant [where P = "\<lambda>s. run_inv (sint (ntimes * n)) s \<and> nthreads s = n"])
      (use assms run_inv_init_run [of ntimes n] in \<open>simp_all add: run_inv_step init_run_def\<close>)
  then show ?thesis ..
qed

lemma counter_run_prefix_le:
  assumes "run_inv v0 s" and "no_wrap v0 (unat (nthreads s))"
  shows "sint (counter (run_prefix L sched i j s)) \<le> sint (counter s)"
proof -
  let ?P = "\<lambda>s'. run_inv v0 s' \<and> nthreads s' = nthreads s \<and> sint (counter s') \<le> sint (counter s)"
  have "?P (run_prefix L sched i j s)"
  proof (rule run_prefix_invariant [where P = ?P])
    fix s' e
    assume "?P s'" and "e \<in> set (enabled s')"
    then show "?P (step L e s')"
      using run_inv_step [of v0 s' e L] counter_step_le [of v0 s' e L] assms(2) by simp
  next
    show "?P s" using assms(1) by simp
  qed
  then show ?thesis by simp
qed

lemma total_calls_update_le:
  assumes "t < length (thread_pool s)" and "thread_pool s' = (thread_pool s)[t := w']"
    and "calls (thread_pool s ! t) \<le> calls w'"
  shows "total_calls s \<le> total_calls s'"
  using calls_update [OF assms(1,2)] assms(3) by simp

lemma total_calls_step:
  assumes "e \<in> set (enabled s)"
  shows "total_calls s \<le> total_calls (step L e s)"
  using assms
proof (cases rule: enabled_step_cases [where L = L])
  case Spawn
  then show ?thesis by (simp add: total_calls_def)
next
  case (Init t)
  show ?thesis
    by (rule total_calls_update_le [OF Init(1), where w' = "thread_setup L t (thread_pool s ! t)"])
      (simp_all add: Init(3) thread_setup_def)
next
  case (Break t)
  show ?thesis
    by (rule total_calls_update_le [OF Break(1), where
          w' = "(thread_pool s ! t)\<lparr>seen := counter s # seen (thread_pool s ! t), err := 0, pc := PFail\<rparr>"])
      (simp_all add: Break(4))
next
  case (Claim t)
  show ?thesis
    by (rule total_calls_update_le [OF Claim(1), where
          w' = "(thread_pool s ! t)\<lparr>seen := counter s # seen (thread_pool s ! t), pc := PScale\<rparr>"])
      (simp_all add: Claim(4))
next
  case (Scale t)
  show ?thesis
    by (rule total_calls_update_le [OF Scale(1), where
          w' = "(thread_pool s ! t)\<lparr>calls := calls (thread_pool s ! t) + 1,
            pc := (if sws_scale L t (calls (thread_pool s ! t)) <s 0 then PFail else PLoop)\<rparr>"])
      (simp_all add: Scale(3))
next
  case (Fail t)
  show ?thesis
    by (rule total_calls_update_le [OF Fail(1), where
          w' = "(thread_pool s ! t)\<lparr>src_frame := FrameNull, dst_frame := FrameNull, sws := False,
            pc := PDone\<rparr>"])
      (simp_all add: Fail(3))
qed

lemma total_calls_run_loop: "total_calls s \<le> total_calls (run_loop L sched i s)"
proof (rule run_loop_invariant [where P = "\<lambda>s'. total_calls s \<le> total_calls s'"])
  fix s' e
  assume "total_calls s \<le> total_calls s'" and "e \<in> set (enabled s')"
  then show "total_calls s \<le> total_calls (step L e s')"
    using total_calls_step [of e s' L] by simp
qed simp

lemma total_calls_le_claimed:
  assumes "pool_ok s"
  shows "total_calls s \<le> claimed s"
  unfolding total_calls_def claimed_def
proof (rule sum_list_mono)
  fix w
  assume "w \<in> set (thread_pool s)"
  then obtain t where "t < length (thread_pool s)" "w = thread_pool s ! t"
    by (auto simp: in_set_conv_nth)
  with assms show "calls w \<le> pos w"
    by (auto simp: pool_ok_def worker_ok_def split: if_splits)
qed

lemma total_calls_eq_claimed:
  assumes "pool_ok s" and "joined s"
  shows "total_calls s = claimed s"
proof -
  have "map calls (thread_pool s) = map pos (thread_pool s)"
  proof (rule map_cong [OF refl])
    fix w
    assume w: "w \<in> set (thread_pool s)"
    then obtain t where "t < length (thread_pool s)" "w = thread_pool s ! t"
      by (auto simp: in_set_conv_nth)
    with assms(1) have "worker_ok w" by (simp add: pool_ok_def)
    moreover from w assms(2) have "pc w = PDone" by (simp add: joined_def)
    ultimately show "calls w = pos w" by (simp add: worker_ok_def)
  qed
  then show ?thesis
    unfolding total_calls_def claimed_def by (rule arg_cong)
qed

lemma sint_mult_small:
  fixes a b :: "32 word"
  assumes "unat a * unat b < 2 ^ 31"
  shows "sint (a * b) = int (unat a * unat b)"
proof -
  have "int (unat a * unat b) < 2 ^ 31"
    using assms by (simp only: of_nat_less_numeral_power_cancel_iff)
  then have lt: "uint a * uint b < 2 ^ 31"
    by simp
  then have "uint a * uint b < 2 ^ LENGTH(32)"
    by simp
  then have u: "uint (a * b) = uint a * uint b"
    by (simp only: uint_mult_lem)
  have "sint (a * b) = signed_take_bit 31 (uint (a * b))"
    using sint_uint [of "a * b"] by simp
  also have "\<dots> = uint a * uint b"
  proof -
    have "- (2 ^ 31) \<le> (0 :: int)" by simp
    also have "0 \<le> uint a * uint b" by simp
    finally have "- (2 ^ 31) \<le> uint a * uint b" .
    then show ?thesis
      unfolding u using lt by (intro signed_take_bit_int_eq_self) simp_all
  qed
  finally show ?thesis by simp
qed

lemma pool_okD: "pool_ok s \<Longrightarrow> t < length (thread_pool s) \<Longrightarrow> worker_ok (thread_pool s ! t)"
  by (simp add: pool_ok_def)

lemma worker_ok_loop_nonpos: "worker_ok w \<Longrightarrow> pc w = PLoop \<Longrightarrow> nonpos w = 0"
  by (simp add: worker_ok_def active_def)

lemma all_broke_init_run: "all_broke (init_run ntimes n)"
  by (simp add: all_broke_def init_run_def)

lemma all_broke_step:
  assumes "all_broke s" and "pool_ok s" and "e \<in> set (enabled s)"
    and ok: "\<forall>t < unat (nthreads s). setup_ok L t \<and> scale_ok L t"
  shows "all_broke (step L e s)"
  using assms(3)
proof (cases rule: enabled_step_cases [where L = L])
  case Spawn
  with assms(1) show ?thesis
    by (auto simp: all_broke_def nth_append thread_start_def)
next
  case (Init t)
  with assms(2) have "setup_ok L t" using ok by (simp add: pool_ok_def)
  then have "pc (thread_setup L t (thread_pool s ! t)) = PLoop"
    by (simp add: thread_setup_def setup_ok_def)
  with Init assms(1) show ?thesis
    by (auto simp: all_broke_def nth_list_update)
next
  case (Break t)
  then have "nonpos (thread_pool s ! t) = 0"
    using pool_okD [OF assms(2), of t] by (intro worker_ok_loop_nonpos) simp_all
  with Break have "nonpos ((thread_pool s ! t)\<lparr>seen := counter s # seen (thread_pool s ! t),
      err := 0, pc := PFail\<rparr>) = 1"
    by (simp add: nonpos_def)
  with Break assms(1) show ?thesis
    by (auto simp: all_broke_def nth_list_update)
next
  case (Claim t)
  with assms(1) show ?thesis
    by (auto simp: all_broke_def nth_list_update)
next
  case (Scale t)
  with assms(2) have "scale_ok L t" using ok by (simp add: pool_ok_def)
  then have "\<not> sws_scale L t (calls (thread_pool s ! t)) <s 0"
    by (simp add: scale_ok_def)
  with Scale assms(1) show ?thesis
    by (auto simp: all_broke_def nth_list_update)
next
  case (Fail t)
  with assms(1) show ?thesis
    by (auto simp: all_broke_def nth_list_update nonpos_def)
qed

lemma all_broke_run_loop:
  assumes "\<forall>t < unat n. setup_ok L t \<and> scale_ok L t"
  shows "all_broke (run_loop L sched 0 (init_run ntimes n))"
proof -
  let ?P = "\<lambda>s. all_broke s \<and> pool_ok s \<and> nthreads s = n"
  have "?P (run_loop L sched 0 (init_run ntimes n))"
  proof (rule run_loop_invariant [where P = ?P])
    fix s e
    assume "?P s" and "e \<in> set (enabled s)"
    then show "?P (step L e s)"
      using all_broke_step [of s e L] pool_ok_step [of s e L] assms by simp
  next
    show "?P (init_run ntimes n)"
      using all_broke_init_run [of ntimes n] pool_ok_init_run [of ntimes n]
      by (simp add: init_run_def)
  qed
  then show ?thesis by simp
qed

lemma breaks_joined:
  assumes "all_broke s" and "joined s"
  shows "breaks s = unat (nthreads s)"
proof -
  have "\<forall>t < length (thread_pool s). nonpos (thread_pool s ! t) = 1"
    using assms by (simp add: all_broke_def joined_def)
  then have "sum_list (map nonpos (thread_pool s)) = length (thread_pool s)"
    by (rule sum_list_eq_length)
  with assms(2) show ?thesis
    by (simp add: breaks_def joined_def)
qed

lemma total_calls_joined:
  assumes "run_inv v0 s" and "all_broke s" and "joined s" and "0 \<le> v0"
  shows "int (total_calls s) = (if nthreads s = 0 then 0 else v0)"
proof (cases "nthreads s = 0")
  case True
  with assms(3) have "thread_pool s = []"
    by (simp add: joined_def)
  with True show ?thesis
    by (simp add: total_calls_def)
next
  case False
  then have "0 < unat (nthreads s)"
    by (simp add: unat_gt_0)
  then have "0 < breaks s"
    using breaks_joined [OF assms(2,3)] by simp
  with assms(1,4) have "int (claimed s) = v0"
    by (simp add: run_inv_def counter_inv_def)
  moreover have "total_calls s = claimed s"
    using assms(1,3) by (intro total_calls_eq_claimed) (simp_all add: run_inv_def)
  ultimately show ?thesis
    using False by simp
qed

lemma run_coordinator_ok:
  assumes "\<forall>t < unat n. setup_ok L t"
  shows "run_coordinator L sched el ntimes n =
    Inr \<lparr>threads_line = n, iterations_line = ntimes * n, fps_line = Quotient (ntimes * n) el\<rparr>"
  using no_error_inv_run_loop [OF assms, of sched ntimes]
  by (simp add: run_coordinator_def no_error_inv_def)

lemma claimed_le:
  assumes "run_inv v0 s"
  shows "int (total_calls s) \<le> max v0 0"
proof -
  have "total_calls s \<le> claimed s"
    using assms by (intro total_calls_le_claimed) (simp add: run_inv_def)
  moreover have "int (claimed s) \<le> max v0 0"
    using assms by (simp add: run_inv_def counter_inv_def)
  ultimately show ?thesis by linarith
qed

subsection \<open>The sweep\<close>

lemma sweep_runs_in_order:
  assumes "tmax \<noteq> - 1" and "Suc (unat tmax) - unat n < fuel"
  shows "sweep fuel W ntimes i n tmax =
    Some (runs_in_order W ntimes i (map of_nat [unat n..<Suc (unat tmax)]))"
  using assms(2)
proof (induction fuel arbitrary: i n)
  case 0
  then show ?case by simp
next
  case (Suc fuel)
  show ?case
  proof (cases "n \<le> tmax")
    case False
    then have "unat tmax < unat n"
      by (simp add: word_le_nat_alt)
    then have "[unat n..<Suc (unat tmax)] = []"
      by simp
    with False show ?thesis by simp
  next
    case True
    then have le: "unat n \<le> unat tmax"
      by (simp add: word_le_nat_alt)
    have "unat tmax < 2 ^ 32 - 1"
    proof -
      have "unat tmax \<noteq> unat (- 1 :: cuint)"
        using assms(1) by (simp only: word_unat_eq_iff) simp
      moreover have "unat tmax < 2 ^ 32"
        using unsigned_less [of tmax, where 'a = nat] by simp
      moreover have "unat (- 1 :: cuint) = 4294967295"
        by (simp add: unsigned_minus_1_eq_mask mask_eq_exp_minus_1)
      ultimately show ?thesis by simp
    qed
    with le have "unat n + unat (1 :: cuint) < 2 ^ LENGTH(32)"
      by simp
    then have "unat (n + 1) = unat n + unat (1 :: cuint)"
      by (simp only: unat_add_lem)
    then have n1: "unat (n + 1) = Suc (unat n)"
      by simp
    have "Suc (unat tmax) - unat (n + 1) < fuel"
      using Suc.prems le by (simp add: n1)
    then have IH: "sweep fuel W ntimes (Suc i) (n + 1) tmax =
        Some (runs_in_order W ntimes (Suc i) (map of_nat [Suc (unat n)..<Suc (unat tmax)]))"
      using Suc.IH [of "n + 1" "Suc i"] by (simp only: n1)
    have "[unat n..<Suc (unat tmax)] = unat n # [Suc (unat n)..<Suc (unat tmax)]"
      using le by (simp add: upt_conv_Cons)
    then have "map of_nat [unat n..<Suc (unat tmax)] =
        n # map of_nat [Suc (unat n)..<Suc (unat tmax)]"
      by simp
    with True IH show ?thesis
      by (simp split: sum.splits prod.splits)
  qed
qed

lemma threads_line_run_coordinator:
  "run_coordinator L sched el ntimes n = Inr r \<Longrightarrow>
   r = \<lparr>threads_line = n, iterations_line = ntimes * n, fps_line = Quotient (ntimes * n) el\<rparr>"
  by (auto simp: run_coordinator_def Let_def split: if_splits)

lemma runs_in_order_blocks:
  assumes "runs_in_order W ntimes i ns = (rs, out)"
  shows "map threads_line rs = take (length rs) ns \<and>
    (out = Completed \<longrightarrow> length rs = length ns) \<and>
    (\<forall>e. out = Thrown e \<longrightarrow> length rs < length ns \<and>
       run_coordinator (lib_of W (i + length rs)) (sched_of W (i + length rs))
         (elapsed_of W (i + length rs)) ntimes (ns ! length rs) = Inl e)"
  using assms
proof (induction ns arbitrary: i rs out)
  case Nil
  then show ?case by simp
next
  case (Cons n ns)
  show ?case
  proof (cases "run_coordinator (lib_of W i) (sched_of W i) (elapsed_of W i) ntimes n")
    case (Inl e)
    with Cons.prems show ?thesis by auto
  next
    case (Inr r)
    obtain rs' out' where r': "runs_in_order W ntimes (Suc i) ns = (rs', out')"
      by (cases "runs_in_order W ntimes (Suc i) ns")
    with Inr Cons.prems have rs: "rs = r # rs'" "out = out'"
      by simp_all
    from Inr have "threads_line r = n"
      using threads_line_run_coordinator [of "lib_of W i" "sched_of W i" "elapsed_of W i" ntimes n r]
      by simp
    with Cons.IH [OF r'] rs show ?thesis
      by simp
  qed
qed

lemma sweep_never_ends:
  assumes "\<forall>i t. setup_ok (lib_of W i) t"
  shows "sweep fuel W ntimes i n (- 1) = None"
proof (induction fuel arbitrary: i n)
  case 0
  then show ?case by simp
next
  case (Suc fuel)
  have "run_coordinator (lib_of W i) (sched_of W i) (elapsed_of W i) ntimes n =
      Inr \<lparr>threads_line = n, iterations_line = ntimes * n,
        fps_line = Quotient (ntimes * n) (elapsed_of W i)\<rparr>"
    using assms by (intro run_coordinator_ok) simp
  then show ?case
    using Suc.IH [of "Suc i" "n + 1"] by simp
qed

lemma runs_in_order_single:
  "runs_in_order W ntimes i [n] =
     (case run_coordinator (lib_of W i) (sched_of W i) (elapsed_of W i) ntimes n of
        Inl e \<Rightarrow> ([], Thrown e)
      | Inr r \<Rightarrow> ([r], Completed))"
  by (simp split: sum.splits)

lemma execute_fixed:
  assumes "threads_arg a \<noteq> 0" and "threads_arg a \<noteq> - 1"
  shows "execute (Suc (Suc fuel)) W a =
    Some (header_of a, runs_in_order W (times_arg a) 0 [threads_arg a])"
proof -
  have "sweep (Suc (Suc fuel)) W (times_arg a) 0 (threads_arg a) (threads_arg a) =
      Some (runs_in_order W (times_arg a) 0 (map of_nat [unat (threads_arg a)..<Suc (unat (threads_arg a))]))"
    using assms(2) by (intro sweep_runs_in_order) simp_all
  moreover have "map of_nat [unat (threads_arg a)..<Suc (unat (threads_arg a))] = [threads_arg a]"
    by simp
  ultimately have "sweep (Suc (Suc fuel)) W (times_arg a) 0 (threads_arg a) (threads_arg a) =
      Some (runs_in_order W (times_arg a) 0 [threads_arg a])"
    by (simp only:)
  then show ?thesis
    using assms(1) by (simp only: execute_def thread_min_def thread_max_def if_True) simp
qed

lemma execute_range:
  assumes "threads_arg a = 0" and "hardware_concurrency W \<noteq> - 1"
    and "unat (hardware_concurrency W) < fuel"
  shows "execute fuel W a =
    Some (header_of a,
      runs_in_order W (times_arg a) 0 (map of_nat [1..<Suc (unat (hardware_concurrency W))]))"
proof -
  have "sweep fuel W (times_arg a) 0 1 (hardware_concurrency W) =
      Some (runs_in_order W (times_arg a) 0
        (map of_nat [unat (1 :: cuint)..<Suc (unat (hardware_concurrency W))]))"
    using assms(2,3) by (intro sweep_runs_in_order) simp_all
  then have "sweep fuel W (times_arg a) 0 1 (hardware_concurrency W) =
      Some (runs_in_order W (times_arg a) 0 (map of_nat [1..<Suc (unat (hardware_concurrency W))]))"
    by simp
  then show ?thesis
    using assms(1) by (simp only: execute_def thread_min_def thread_max_def) simp
qed

lemma counter_step_dec:
  "counter (step L e s) = counter s \<or> counter (step L e s) = counter s - 1"
  by (cases e) (simp_all add: thread_step_def Let_def split: label.splits)

lemma counter_run_prefix_Suc:
  "counter (run_prefix L sched i (Suc k) s) = counter (run_prefix L sched i k s) \<or>
   counter (run_prefix L sched i (Suc k) s) = counter (run_prefix L sched i k s) - 1"
proof -
  let ?p = "run_prefix L sched i k s"
  have "run_prefix L sched i (k + 1) s = run_prefix L sched (i + k) 1 ?p"
    by (rule run_prefix_add)
  then have "run_prefix L sched i (Suc k) s =
      (if enabled ?p = [] then ?p
       else step L (enabled ?p ! (sched (i + k) mod length (enabled ?p))) ?p)"
    by simp
  then show ?thesis
    using counter_step_dec [of L "enabled ?p ! (sched (i + k) mod length (enabled ?p))" ?p]
    by (cases "enabled ?p = []") simp_all
qed

lemma sweep_spawn_all_ok:
  assumes "\<forall>i nn. ok i nn"
  shows "sweep_spawn fuel ok W ntimes i n tmax =
    map_option (\<lambda>(rs, out). (rs, Returned out)) (sweep fuel W ntimes i n tmax)"
proof (induction fuel arbitrary: i n)
  case 0
  then show ?case by simp
next
  case (Suc fuel)
  have "find (\<lambda>nn. \<not> ok i nn) [0..<unat n] = None"
    using assms by (simp add: find_None_iff)
  then show ?case
    using Suc.IH [of "Suc i" "n + 1"]
    by (simp split: sum.splits option.splits prod.splits)
qed

lemma execute_spawn_all_ok:
  assumes "\<forall>i nn. ok i nn"
  shows "execute_spawn fuel ok W a =
    map_option (\<lambda>(h, rs, out). (h, rs, Returned out)) (execute fuel W a)"
  using sweep_spawn_all_ok [OF assms, of fuel W "times_arg a" 0 "thread_min (threads_arg a)"
      "thread_max W (threads_arg a)"]
  by (simp add: execute_spawn_def execute_def split: option.splits prod.splits)

text \<open>
  Why the thread count \<open>2^32 - 1\<close> is set apart below: were all its threads
  constructed and no library call to fail, the test \<open>n <= thread_max\<close> of line 95
  would hold for every \<open>n\<close> and \<open>++n\<close> would wrap around, so the sweep would not end.
\<close>

lemma execute_never_ends_at_max:
  assumes "\<forall>i t. setup_ok (lib_of W i) t" and "threads_arg a = - 1"
  shows "execute fuel W a = None"
  using sweep_never_ends [OF assms(1), of fuel "times_arg a" 0 "- 1"] assms(2)
  by (simp add: execute_def thread_min_def thread_max_def)

section \<open>The claims\<close>

text \<open>
  C1. A thread whose \<open>sws_scale\<close> call fails should set the error flag and stop
  claiming. The code at \<open>times = 2\<close>, one thread, every construction succeeding and
  \<open>sws_scale\<close> returning \<open>-1\<close>: the thread stops after its first call, with one unit
  left on the counter, but the error flag stays zero and the run is reported as a
  success. (\<open>err\<close> holds the zero returned by the last \<open>av_frame_get_buffer\<close> when
  line 72 jumps to \<open>fail\<close>, so line 77 does not store it.)
\<close>

theorem conversion_failure_not_flagged:
  "run_loop lib_scale_fails sched_first 0 (init_run 2 1) =
     \<lparr>nthreads = 1, counter = 1, error = 0,
      thread_pool = [\<lparr>pc = PDone, err = 0, sws = False, src_frame = FrameNull,
        dst_frame = FrameNull, calls = 1, seen = [2]\<rparr>]\<rparr> \<and>
   run_coordinator lib_scale_fails sched_first el 2 1 =
     Inr \<lparr>threads_line = 1, iterations_line = 2, fps_line = Quotient 2 el\<rparr>"
proof -
  have "run_loop lib_scale_fails sched_first 0 (init_run 2 1) =
     \<lparr>nthreads = 1, counter = 1, error = 0,
      thread_pool = [\<lparr>pc = PDone, err = 0, sws = False, src_frame = FrameNull,
        dst_frame = FrameNull, calls = 1, seen = [2]\<rparr>]\<rparr>"
    by code_simp
  then show ?thesis
    by (simp add: run_coordinator_def)
qed

text \<open>
  C2 (as amended). For \<open>K\<close> iterations per thread and \<open>N\<close> threads with \<open>N * K < 2^31\<close>
  and \<open>N \<le> 2^31\<close>, a run in which no library call fails makes exactly \<open>N * K\<close> calls
  of \<open>sws_scale\<close> over all threads, under every scheduler: never more at any moment of
  the run, and exactly that many at its end; and the run is reported as a success.
  A thread calls \<open>sws_scale\<close> only after a post-decrement that returned a positive
  value (the steps at \<open>PLoop\<close> and \<open>PScale\<close>).
\<close>

theorem exact_call_count:
  assumes "unat ntimes * unat n < 2 ^ 31" and "unat n \<le> 2 ^ 31"
    and "\<forall>t < unat n. setup_ok L t \<and> scale_ok L t"
  shows "total_calls (run_loop L sched 0 (init_run ntimes n)) = unat ntimes * unat n \<and>
    total_calls (run_prefix L sched 0 k (init_run ntimes n)) \<le> unat ntimes * unat n \<and>
    run_coordinator L sched el ntimes n =
      Inr \<lparr>threads_line = n, iterations_line = ntimes * n, fps_line = Quotient (ntimes * n) el\<rparr>"
proof -
  let ?s = "run_loop L sched 0 (init_run ntimes n)"
  let ?p = "run_prefix L sched 0 k (init_run ntimes n)"
  have v0: "sint (ntimes * n) = int (unat ntimes * unat n)"
    by (rule sint_mult_small [OF assms(1)])
  have "int (unat n) \<le> 2 ^ 31"
    using assms(2) by (simp only: of_nat_le_numeral_power_cancel_iff)
  then have nw: "no_wrap (sint (ntimes * n)) (unat n)"
    unfolding no_wrap_def v0 by (simp del: of_nat_mult)
  have "int (total_calls ?s) = (if nthreads ?s = 0 then 0 else sint (ntimes * n))"
    using assms(3) v0
    by (intro total_calls_joined run_inv_run_loop [OF nw] all_broke_run_loop joined_run_loop)
      simp_all
  moreover have "nthreads ?s = n"
    by (simp add: nthreads_run_loop init_run_def)
  ultimately have "int (total_calls ?s) = int (unat ntimes * unat n)"
    unfolding v0 by (cases "n = 0") simp_all
  then have 1: "total_calls ?s = unat ntimes * unat n"
    by (simp only: of_nat_eq_iff)
  have "int (total_calls ?p) \<le> max (sint (ntimes * n)) 0"
    by (rule claimed_le [OF run_inv_run_prefix [OF nw]])
  then have "int (total_calls ?p) \<le> int (unat ntimes * unat n)"
    unfolding v0 by (simp del: of_nat_mult)
  then have 2: "total_calls ?p \<le> unat ntimes * unat n"
    by (simp only: of_nat_le_iff)
  have 3: "run_coordinator L sched el ntimes n =
      Inr \<lparr>threads_line = n, iterations_line = ntimes * n, fps_line = Quotient (ntimes * n) el\<rparr>"
    using assms(3) by (intro run_coordinator_ok) simp
  from 1 2 3 show ?thesis by simp
qed

theorem exact_call_count_witness:
  "unat (100 :: cuint) * unat (2 :: cuint) < 2 ^ 31 \<and> unat (2 :: cuint) \<le> 2 ^ 31 \<and>
   total_calls (run_loop lib_all_ok sched_first 0 (init_run 100 2)) = 200 \<and>
   run_coordinator lib_all_ok sched_first 1 100 2 =
     Inr \<lparr>threads_line = 2, iterations_line = 200, fps_line = Quotient 200 1\<rparr>"
proof -
  have h: "unat (100 :: cuint) * unat (2 :: cuint) < 2 ^ 31" "unat (2 :: cuint) \<le> 2 ^ 31"
    "\<forall>t < unat (2 :: cuint). setup_ok lib_all_ok t \<and> scale_ok lib_all_ok t"
    by (simp_all add: setup_ok_def scale_ok_def lib_all_ok_def word_sless_alt)
  show ?thesis
    using h(1,2) exact_call_count [OF h, of sched_first 0 1] by simp
qed

text \<open>
  C2 as stated, for all \<open>K \<ge> 0\<close>, fails where the product does not fit an \<open>int\<close>:
  with \<open>K = 2^31\<close> and one thread the counter starts at \<open>-2^31\<close> and no call is made.
\<close>

theorem exact_call_count_counterexample:
  "total_calls (run_loop lib_all_ok sched_first 0 (init_run 0x80000000 1)) = 0 \<and>
   unat (0x80000000 :: cuint) * unat (1 :: cuint) = 2147483648"
proof -
  have "total_calls (run_loop lib_all_ok sched_first 0 (init_run 0x80000000 1)) = 0"
    by code_simp
  then show ?thesis by simp
qed

text \<open>
  C3 (as amended). In a run of \<open>N\<close> threads whose counter starts at \<open>v0\<close> with
  \<open>min v0 0 - N \<ge> -2^31\<close> (no decrement wraps around), at every moment of the run:
  a step leaves the counter as it is or decrements it by one, and the counter is not
  above its value at any earlier moment; the units a thread has
  claimed are all different, and no unit is claimed by two threads; and the number of
  claims over all threads is at most \<open>v0\<close>, or zero when \<open>v0\<close> is negative.
\<close>

theorem counter_monotone_claims_exclusive:
  assumes "no_wrap (sint (ntimes * n)) (unat n)"
  shows "(counter (run_prefix L sched 0 (Suc k) (init_run ntimes n)) =
        counter (run_prefix L sched 0 k (init_run ntimes n)) \<or>
      counter (run_prefix L sched 0 (Suc k) (init_run ntimes n)) =
        counter (run_prefix L sched 0 k (init_run ntimes n)) - 1) \<and>
    sint (counter (run_prefix L sched 0 (k + j) (init_run ntimes n))) \<le>
      sint (counter (run_prefix L sched 0 k (init_run ntimes n))) \<and>
    (\<forall>t < length (thread_pool (run_prefix L sched 0 k (init_run ntimes n))).
       distinct (units (thread_pool (run_prefix L sched 0 k (init_run ntimes n)) ! t)) \<and>
       (\<forall>u < length (thread_pool (run_prefix L sched 0 k (init_run ntimes n))). t \<noteq> u \<longrightarrow>
          set (units (thread_pool (run_prefix L sched 0 k (init_run ntimes n)) ! t)) \<inter>
          set (units (thread_pool (run_prefix L sched 0 k (init_run ntimes n)) ! u)) = {})) \<and>
    int (claimed (run_prefix L sched 0 k (init_run ntimes n))) \<le> max (sint (ntimes * n)) 0"
proof -
  let ?p = "run_prefix L sched 0 k (init_run ntimes n)"
  have inv: "run_inv (sint (ntimes * n)) ?p"
    by (rule run_inv_run_prefix [OF assms])
  have n: "nthreads ?p = n"
    by (simp add: nthreads_run_prefix init_run_def)
  have "sint (counter (run_prefix L sched (0 + k) j ?p)) \<le> sint (counter ?p)"
    using assms by (intro counter_run_prefix_le [OF inv]) (simp add: n)
  then have 1: "sint (counter (run_prefix L sched 0 (k + j) (init_run ntimes n))) \<le> sint (counter ?p)"
    by (simp only: run_prefix_add)
  from inv have u: "units_inv ?p" by (simp add: run_inv_def)
  have 2: "distinct (units (thread_pool ?p ! t)) \<and>
      (\<forall>u < length (thread_pool ?p). t \<noteq> u \<longrightarrow>
        set (units (thread_pool ?p ! t)) \<inter> set (units (thread_pool ?p ! u)) = {})"
    if "t < length (thread_pool ?p)" for t
    using u that unfolding units_inv_def units_def by (auto simp: disjoint_iff)
  from inv have 3: "int (claimed ?p) \<le> max (sint (ntimes * n)) 0"
    by (simp add: run_inv_def counter_inv_def)
  have 0: "counter (run_prefix L sched 0 (Suc k) (init_run ntimes n)) = counter ?p \<or>
      counter (run_prefix L sched 0 (Suc k) (init_run ntimes n)) = counter ?p - 1"
    by (rule counter_run_prefix_Suc)
  from 0 1 2 3 show ?thesis by blast
qed

theorem counter_monotone_claims_exclusive_witness:
  "no_wrap (sint (2 * 2 :: cuint)) (unat (2 :: cuint)) \<and>
   sint (counter (run_prefix lib_all_ok sched_first 0 (4 + 3) (init_run 2 2))) \<le>
     sint (counter (run_prefix lib_all_ok sched_first 0 4 (init_run 2 2))) \<and>
   int (claimed (run_prefix lib_all_ok sched_first 0 4 (init_run 2 2))) \<le> max (sint (2 * 2 :: cuint)) 0"
proof -
  have h: "no_wrap (sint (2 * 2 :: cuint)) (unat (2 :: cuint))"
    by (simp add: no_wrap_def)
  show ?thesis
    using h counter_monotone_claims_exclusive [OF h, of lib_all_ok sched_first 4 3] by blast
qed

text \<open>
  C3 as stated fails where a decrement wraps around: with \<open>times = 2^31\<close> and one thread
  the counter starts at \<open>-2^31\<close>, and the first post-decrement takes it to \<open>2^31 - 1\<close>.
\<close>

theorem counter_monotone_counterexample:
  "sint (counter (run_prefix lib_all_ok sched_first 0 2 (init_run 0x80000000 1))) <
   sint (counter (run_prefix lib_all_ok sched_first 0 3 (init_run 0x80000000 1)))"
  by code_simp



text \<open>
  C5 (as amended). Provided every construction of a \<open>std::thread\<close> succeeds: with a
  fixed thread count \<open>T\<close> other than \<open>2^32 - 1\<close>, \<open>execute\<close> makes exactly one run; it
  prints the header and one block when the run succeeds, and the header alone, ending
  with the exception of line 114, when it fails. With no fixed thread count and a
  hardware concurrency \<open>M\<close> other than \<open>2^32 - 1\<close>, it runs the thread counts \<open>1, \<dots>, M\<close>
  in ascending order as \<open>runs_in_order\<close> describes: the blocks printed are those of the
  runs before the first failing one, in order; all \<open>M\<close> of them when the sweep completes;
  and when it ends with the exception, the run after the last block is the one that
  failed.
\<close>

theorem sweep_driver:
  assumes "\<forall>i nn. ok i nn"
  shows "(threads_arg a \<noteq> 0 \<longrightarrow> threads_arg a \<noteq> - 1 \<longrightarrow>
      execute_spawn (Suc (Suc fuel)) ok W a =
        Some (header_of a,
          case run_coordinator (lib_of W 0) (sched_of W 0) (elapsed_of W 0) (times_arg a)
                 (threads_arg a) of
            Inl e \<Rightarrow> ([], Returned (Thrown e))
          | Inr r \<Rightarrow> ([r], Returned Completed))) \<and>
   (threads_arg a = 0 \<longrightarrow> hardware_concurrency W \<noteq> - 1 \<longrightarrow>
    unat (hardware_concurrency W) < fuel' \<longrightarrow>
      execute_spawn fuel' ok W a =
        Some (header_of a,
          case runs_in_order W (times_arg a) 0
                 (map of_nat [1..<Suc (unat (hardware_concurrency W))]) of
            (rs, out) \<Rightarrow> (rs, Returned out))) \<and>
   (runs_in_order W ntimes i ns = (rs, out) \<longrightarrow>
      map threads_line rs = take (length rs) ns \<and>
      (out = Completed \<longrightarrow> length rs = length ns) \<and>
      (\<forall>e. out = Thrown e \<longrightarrow> length rs < length ns \<and>
         run_coordinator (lib_of W (i + length rs)) (sched_of W (i + length rs))
           (elapsed_of W (i + length rs)) ntimes (ns ! length rs) = Inl e))"
proof -
  have 1: "execute_spawn (Suc (Suc fuel)) ok W a =
        Some (header_of a,
          case run_coordinator (lib_of W 0) (sched_of W 0) (elapsed_of W 0) (times_arg a)
                 (threads_arg a) of
            Inl e \<Rightarrow> ([], Returned (Thrown e))
          | Inr r \<Rightarrow> ([r], Returned Completed))"
    if "threads_arg a \<noteq> 0" "threads_arg a \<noteq> - 1"
    using execute_fixed [OF that, of fuel W]
    by (simp add: execute_spawn_all_ok [OF assms] runs_in_order_single split: sum.splits)
  have 2: "execute_spawn fuel' ok W a =
        Some (header_of a,
          case runs_in_order W (times_arg a) 0
                 (map of_nat [1..<Suc (unat (hardware_concurrency W))]) of
            (rs, out) \<Rightarrow> (rs, Returned out))"
    if "threads_arg a = 0" "hardware_concurrency W \<noteq> - 1" "unat (hardware_concurrency W) < fuel'"
    using execute_range [OF that]
    by (simp add: execute_spawn_all_ok [OF assms] split: prod.splits)
  from 1 2 runs_in_order_blocks [of W ntimes i ns rs out] show ?thesis
    by blast
qed

theorem sweep_driver_witness:
  "execute_spawn 2 (\<lambda>i nn. True) (example_world lib_all_ok 1 2) (example_args\<lparr>threads_arg := 2\<rparr>) =
     Some (header_of example_args,
       [\<lparr>threads_line = 2, iterations_line = 200, fps_line = Quotient 200 1\<rparr>],
       Returned Completed) \<and>
   execute_spawn 3 (\<lambda>i nn. True) (example_world lib_all_ok 1 2) example_args =
     Some (header_of example_args,
       [\<lparr>threads_line = 1, iterations_line = 100, fps_line = Quotient 100 1\<rparr>,
        \<lparr>threads_line = 2, iterations_line = 200, fps_line = Quotient 200 1\<rparr>],
       Returned Completed)"
proof -
  let ?W = "example_world lib_all_ok 1 2"
  let ?ok = "\<lambda>(i :: nat) (nn :: nat). True"
  have all: "\<forall>i nn. ?ok i nn" by simp
  have ok: "run_coordinator (lib_of ?W i) (sched_of ?W i) (elapsed_of ?W i) 100 n =
      Inr \<lparr>threads_line = n, iterations_line = 100 * n, fps_line = Quotient (100 * n) 1\<rparr>"
    for i n
    using run_coordinator_ok [of n lib_all_ok sched_first 1 100]
    by (simp add: example_world_def setup_ok_def lib_all_ok_def)
  have h: "threads_arg (example_args\<lparr>threads_arg := 2\<rparr>) \<noteq> 0"
    "threads_arg (example_args\<lparr>threads_arg := 2\<rparr>) \<noteq> - 1"
    "threads_arg example_args = 0" "hardware_concurrency ?W \<noteq> - 1"
    "unat (hardware_concurrency ?W) < 3"
    by (simp_all add: example_args_def example_world_def)
  have times: "times_arg (example_args\<lparr>threads_arg := 2\<rparr>) = 100" "times_arg example_args = 100"
    by (simp_all add: example_args_def)
  have "execute_spawn 2 ?ok ?W (example_args\<lparr>threads_arg := 2\<rparr>) =
      Some (header_of (example_args\<lparr>threads_arg := 2\<rparr>),
        [\<lparr>threads_line = 2, iterations_line = 200, fps_line = Quotient 200 1\<rparr>],
        Returned Completed)"
    using h(1,2)
      sweep_driver [OF all, of "example_args\<lparr>threads_arg := 2\<rparr>" 0 ?W 0 100 0 "[]" "[]" Completed]
      ok [of 0 2]
    by (simp add: times numeral_2_eq_2)
  moreover have "map of_nat [1..<Suc (unat (hardware_concurrency ?W))] = [1, 2 :: cuint]"
    by (simp add: example_world_def upt_rec)
  then have "execute_spawn 3 ?ok ?W example_args =
      Some (header_of example_args,
        [\<lparr>threads_line = 1, iterations_line = 100, fps_line = Quotient 100 1\<rparr>,
         \<lparr>threads_line = 2, iterations_line = 200, fps_line = Quotient 200 1\<rparr>],
        Returned Completed)"
    using h(3,4,5) sweep_driver [OF all, of example_args 0 ?W 3 100 0 "[]" "[]" Completed]
      ok [of 0 1] ok [of 1 2]
    by (simp add: times)
  moreover have "header_of (example_args\<lparr>threads_arg := 2\<rparr>) = header_of example_args"
    by (simp add: header_of_def)
  ultimately show ?thesis by simp
qed

text \<open>
  C5 as stated fails where a thread cannot be started: with the fixed thread count 2
  and a system that starts one thread and refuses the second, the constructor throws
  while the vector holds a joinable thread, and the process is aborted by
  \<open>std::terminate\<close>: the header is followed by no block and by no failure notice.
\<close>

theorem sweep_driver_counterexample:
  "execute_spawn 2 (\<lambda>i nn. nn < 1) (example_world lib_all_ok 1 2)
     (example_args\<lparr>threads_arg := 2\<rparr>) =
     Some (header_of example_args, [], Terminated)"
proof -
  have "[0..<unat (2 :: cuint)] = [0, 1]"
    by (simp add: upt_rec)
  then show ?thesis
    by (simp add: execute_spawn_def thread_min_def thread_max_def example_args_def
        header_of_def numeral_2_eq_2)
qed

text \<open>
  C6. The error flag of a run starts at zero; once it is not zero at some moment of the
  run, it is not zero at any later moment nor at the end of the run. Every run starts
  from \<open>init_run\<close>, with a counter and an error flag of its own: whether the run
  coordinator reports a failure depends on the run from that fresh state alone.
\<close>

theorem error_flag_sticky:
  "error (init_run ntimes n) = 0 \<and> counter (init_run ntimes n) = ntimes * n \<and>
   (error (run_prefix L sched 0 k (init_run ntimes n)) \<noteq> 0 \<longrightarrow>
      error (run_prefix L sched 0 (k + j) (init_run ntimes n)) \<noteq> 0 \<and>
      error (run_loop L sched 0 (init_run ntimes n)) \<noteq> 0) \<and>
   (run_coordinator L sched el ntimes n = Inl e \<longleftrightarrow>
      e \<noteq> 0 \<and> error (run_loop L sched 0 (init_run ntimes n)) = e)"
proof -
  have "error (run_loop L sched 0 (init_run ntimes n)) \<noteq> 0"
    if "error (run_prefix L sched 0 k (init_run ntimes n)) \<noteq> 0"
    using that error_run_loop [of "run_prefix L sched 0 k (init_run ntimes n)" L sched k]
      run_loop_run_prefix [of L sched 0 "init_run ntimes n" k] by simp
  then show ?thesis
    by (auto simp: run_prefix_add error_run_prefix run_coordinator_def Let_def init_run_def)
qed

theorem error_flag_sticky_witness:
  "error (run_prefix lib_context_fails sched_first 0 3 (init_run 1 1)) \<noteq> 0 \<and>
   error (run_prefix lib_context_fails sched_first 0 (3 + 1) (init_run 1 1)) \<noteq> 0 \<and>
   error (run_loop lib_context_fails sched_first 0 (init_run 1 1)) \<noteq> 0"
proof -
  have "error (run_prefix lib_context_fails sched_first 0 3 (init_run 1 1)) \<noteq> 0"
    by code_simp
  then show ?thesis
    using error_flag_sticky [of 1 1 lib_context_fails sched_first 3 1]
    by blast
qed

text \<open>
  C7 (as amended). For every run that ends with the error flag at zero, whatever the
  elapsed time (zero and negative values included), the block that is printed holds the
  quotient of the unsigned product \<open>times * n\<close> by the elapsed time: \<open>execute\<close> does not
  test the elapsed time, and there is no other value it prints in its place.
\<close>

theorem throughput_is_quotient:
  "(run_coordinator L sched el ntimes n = Inr r \<longrightarrow>
      r = \<lparr>threads_line = n, iterations_line = ntimes * n, fps_line = Quotient (ntimes * n) el\<rparr>) \<and>
   (error (run_loop L sched 0 (init_run ntimes n)) = 0 \<longrightarrow>
      run_coordinator L sched el ntimes n =
        Inr \<lparr>threads_line = n, iterations_line = ntimes * n, fps_line = Quotient (ntimes * n) el\<rparr>)"
  by (auto simp: run_coordinator_def Let_def)

theorem throughput_is_quotient_witness:
  "error (run_loop lib_all_ok sched_first 0 (init_run 1 1)) = 0 \<and>
   run_coordinator lib_all_ok sched_first (- 1) 1 1 =
     Inr \<lparr>threads_line = 1, iterations_line = 1, fps_line = Quotient 1 (- 1)\<rparr>"
proof -
  have h: "error (run_loop lib_all_ok sched_first 0 (init_run 1 1)) = 0"
    by code_simp
  show ?thesis
    using h throughput_is_quotient [of lib_all_ok sched_first "- 1" 1 1
        "\<lparr>threads_line = 1, iterations_line = 1, fps_line = Quotient 1 (- 1)\<rparr>"]
    by simp
qed

text \<open>
  C7 as stated fails: with an elapsed time of zero the division is made all the same.
\<close>

theorem throughput_guard_counterexample:
  "run_coordinator lib_all_ok sched_first 0 100 2 =
     Inr \<lparr>threads_line = 2, iterations_line = 200, fps_line = Quotient 200 0\<rparr>"
proof -
  have "\<forall>t < unat (2 :: cuint). setup_ok lib_all_ok t"
    by (simp add: setup_ok_def lib_all_ok_def)
  then show ?thesis
    using run_coordinator_ok [of 2 lib_all_ok sched_first 0 100] by simp
qed

text \<open>
  C8. Under every scheduler and every behaviour of the library, each run ends with all
  its threads returned, and every thread that has returned has released its context and
  both frames, whether it left by exhaustion of the counter, by a failed construction or
  by a failed conversion. (While a thread is in the loop it holds all three.)
\<close>

theorem resources_released:
  "joined (run_loop L sched 0 (init_run ntimes n)) \<and>
   (\<forall>w \<in> set (thread_pool (run_loop L sched 0 (init_run ntimes n))). pc w = PDone \<and> released w) \<and>
   (\<forall>w \<in> set (thread_pool (run_prefix L sched 0 k (init_run ntimes n))).
      (pc w = PLoop \<or> pc w = PScale \<longrightarrow> held w) \<and> (pc w = PDone \<longrightarrow> released w))"
proof -
  let ?s = "run_loop L sched 0 (init_run ntimes n)"
  let ?p = "run_prefix L sched 0 k (init_run ntimes n)"
  have j: "joined ?s" by (rule joined_run_loop)
  have "\<forall>t < length (thread_pool ?s). worker_ok (thread_pool ?s ! t)"
    using pool_ok_run_loop [of L sched ntimes n] by (simp add: pool_ok_def)
  then have "\<forall>w \<in> set (thread_pool ?s). worker_ok w"
    by (simp add: all_set_conv_all_nth)
  with j have 1: "\<forall>w \<in> set (thread_pool ?s). pc w = PDone \<and> released w"
    by (simp add: joined_def worker_ok_def)
  have "\<forall>t < length (thread_pool ?p). worker_ok (thread_pool ?p ! t)"
    using pool_ok_run_prefix [of L sched k ntimes n] by (simp add: pool_ok_def)
  then have "\<forall>w \<in> set (thread_pool ?p). worker_ok w"
    by (simp add: all_set_conv_all_nth)
  then have 2: "\<forall>w \<in> set (thread_pool ?p).
      (pc w = PLoop \<or> pc w = PScale \<longrightarrow> held w) \<and> (pc w = PDone \<longrightarrow> released w)"
    by (simp add: worker_ok_def)
  from j 1 2 show ?thesis by blast
qed

theorem resources_released_witness:
  "joined (run_loop lib_scale_fails sched_first 0 (init_run 2 2)) \<and>
   list_all (\<lambda>w. pc w = PDone \<and> released w)
     (thread_pool (run_loop lib_scale_fails sched_first 0 (init_run 2 2))) \<and>
   map pc (thread_pool (run_prefix lib_scale_fails sched_first 0 3 (init_run 2 2))) = [PLoop, PInit] \<and>
   held (thread_pool (run_prefix lib_scale_fails sched_first 0 3 (init_run 2 2)) ! 0)"
proof -
  have p: "map pc (thread_pool (run_prefix lib_scale_fails sched_first 0 3 (init_run 2 2))) = [PLoop, PInit]"
    by code_simp
  let ?tp = "thread_pool (run_prefix lib_scale_fails sched_first 0 3 (init_run 2 2))"
  have "length (map pc ?tp) = 2"
    by (simp only: p) simp
  then have l: "length ?tp = 2"
    by simp
  then have "map pc ?tp ! 0 = pc (?tp ! 0)"
    by (intro nth_map) simp
  with p l have "?tp ! 0 \<in> set ?tp" "pc (?tp ! 0) = PLoop"
    by simp_all
  with p show ?thesis
    using resources_released [of lib_scale_fails sched_first 2 2 3]
    unfolding list_all_iff by blast
qed

text \<open>
  C9. With no fixed thread count (the \<open>threads\<close> option is zero) and a hardware
  concurrency of zero, the sweep loop makes no iteration: \<open>execute\<close> prints the header
  line only, no run is made, and the process exits with status 0.
\<close>

theorem sweep_zero_concurrency:
  "threads_arg a = 0 \<Longrightarrow> hardware_concurrency W = 0 \<Longrightarrow>
   execute (Suc fuel) W a = Some (header_of a, [], Completed) \<and>
   main_parsed (Suc fuel) W a = Some ((header_of a, []), 0)"
  by (simp add: main_parsed_def execute_def thread_min_def thread_max_def)

theorem sweep_zero_concurrency_witness:
  "threads_arg example_args = 0 \<and> hardware_concurrency (example_world lib_all_ok 1 0) = 0 \<and>
   execute 1 (example_world lib_all_ok 1 0) example_args =
     Some (header_of example_args, [], Completed) \<and>
   main_parsed 1 (example_world lib_all_ok 1 0) example_args =
     Some ((header_of example_args, []), 0)"
  using sweep_zero_concurrency [of example_args "example_world lib_all_ok 1 0" 0]
  by (simp add: example_args_def example_world_def)

text \<open>
  C10 (as amended). The counter starts at the product \<open>times * n\<close> of the two
  \<open>unsigned\<close> values, read as an \<open>int\<close>. Where that value \<open>v0\<close> is not positive, no
  decrement wraps around (\<open>v0 - N \<ge> -2^31\<close>) and every construction succeeds, no thread
  ever calls \<open>sws_scale\<close>, and the run is still reported as a success, with the wrapped
  unsigned product as its iteration count.
\<close>

theorem nonpositive_counter_no_calls:
  assumes "sint (ntimes * n) \<le> 0" and "no_wrap (sint (ntimes * n)) (unat n)"
    and "\<forall>t < unat n. setup_ok L t"
  shows "counter (init_run ntimes n) = ntimes * n \<and>
    total_calls (run_prefix L sched 0 k (init_run ntimes n)) = 0 \<and>
    total_calls (run_loop L sched 0 (init_run ntimes n)) = 0 \<and>
    run_coordinator L sched el ntimes n =
      Inr \<lparr>threads_line = n, iterations_line = ntimes * n, fps_line = Quotient (ntimes * n) el\<rparr>"
proof -
  have "int (total_calls (run_prefix L sched 0 k (init_run ntimes n))) \<le> max (sint (ntimes * n)) 0"
    by (rule claimed_le [OF run_inv_run_prefix [OF assms(2)]])
  with assms(1) have 1: "total_calls (run_prefix L sched 0 k (init_run ntimes n)) = 0"
    by simp
  have "int (total_calls (run_loop L sched 0 (init_run ntimes n))) \<le> max (sint (ntimes * n)) 0"
    by (rule claimed_le [OF run_inv_run_loop [OF assms(2)]])
  with assms(1) have 2: "total_calls (run_loop L sched 0 (init_run ntimes n)) = 0"
    by simp
  from 1 2 run_coordinator_ok [OF assms(3), of sched el ntimes] show ?thesis
    by (simp add: init_run_def)
qed

theorem nonpositive_counter_no_calls_witness:
  "sint (0xFFFFFFFF * 1 :: cuint) \<le> 0 \<and> no_wrap (sint (0xFFFFFFFF * 1 :: cuint)) (unat (1 :: cuint)) \<and>
   total_calls (run_loop lib_scale_fails sched_first 0 (init_run 0xFFFFFFFF 1)) = 0 \<and>
   run_coordinator lib_scale_fails sched_first 1 0xFFFFFFFF 1 =
     Inr \<lparr>threads_line = 1, iterations_line = 0xFFFFFFFF, fps_line = Quotient 0xFFFFFFFF 1\<rparr>"
proof -
  have h: "sint (0xFFFFFFFF * 1 :: cuint) \<le> 0"
    "no_wrap (sint (0xFFFFFFFF * 1 :: cuint)) (unat (1 :: cuint))"
    "\<forall>t < unat (1 :: cuint). setup_ok lib_scale_fails t"
    by (simp_all add: no_wrap_def setup_ok_def lib_scale_fails_def lib_all_ok_def)
  show ?thesis
    using h(1,2) nonpositive_counter_no_calls [OF h, of sched_first 0 1] by simp
qed

text \<open>
  C10 as stated fails where the decrements wrap around: with \<open>times = 2^30\<close> and two
  threads the counter starts at \<open>-2^31\<close>; the first thread leaves the loop and takes the
  counter to \<open>2^31 - 1\<close>, and the second thread then claims work and calls \<open>sws_scale\<close>.
\<close>

theorem nonpositive_counter_counterexample:
  "sint (0x40000000 * 2 :: cuint) \<le> 0 \<and>
   0 < total_calls (run_loop lib_all_ok sched_first 0 (init_run 0x40000000 2))"
proof -
  have "total_calls (run_prefix lib_all_ok sched_first 0 8 (init_run 0x40000000 2)) = 1"
    by code_simp
  moreover have "total_calls (run_prefix lib_all_ok sched_first 0 8 (init_run 0x40000000 2)) \<le>
      total_calls (run_loop lib_all_ok sched_first (0 + 8)
        (run_prefix lib_all_ok sched_first 0 8 (init_run 0x40000000 2)))"
    by (rule total_calls_run_loop)
  ultimately have "0 < total_calls (run_loop lib_all_ok sched_first 0 (init_run 0x40000000 2))"
    by (simp only: run_loop_run_prefix [symmetric])
  then show ?thesis by simp
qed


end
